theory Spec2Isabelle
  imports Main "HOL-Library.AList"
begin

section \<open>Values, objects and errors\<close>

text \<open>
  The JavaScript values that reach the collector. \<open>Undefined\<close> is the value that
  \<open>changed\<close> treats as "unset this field". Numbers are integers here (no NaN, no
  fractions), \<open>ObjectID h\<close> is an instance of \<open>Mongo.ObjectID\<close> with hex string \<open>h\<close>,
  and \<open>Obj\<close> is a plain object such as a Mongo document.
\<close>

datatype val =
    Undefined
  | Null
  | Bool bool
  | Num int
  | Str string
  | ObjectID string
  | Obj "(string \<times> val) list"

text \<open>
  A JavaScript object is the list of its own enumerable properties in insertion order.
  Reading \<open>o[k]\<close> is \<open>map_of o k\<close> (\<open>None\<close> for \<open>undefined\<close> on a missing key),
  the assignment \<open>o[k] = v\<close> is \<open>AList.update k v o\<close> (an existing key keeps its place,
  a new key goes to the end) and \<open>delete o[k]\<close> is \<open>AList.delete k o\<close>.
  The list holds the own properties only. Every object the collector creates has
  \<open>Object.prototype\<close> as its prototype, and a state of the model stands for a collector
  whose objects still have it. The engine's rule that moves integer-like keys to the front
  of an enumeration is not modelled, so the order of a list produced by \<open>_.values\<close> is
  insertion order.
\<close>

type_synonym 'a object = "(string \<times> 'a) list"

type_synonym fields = "val object"

text \<open>
  The names of the properties of \<open>Object.prototype\<close> (ECMAScript, Annex B included).
  Reading \<open>o[k]\<close> for such a name \<open>k\<close> that is not an own property of \<open>o\<close> finds
  the inherited value: a built-in function, and for \<open>__proto__\<close> the prototype itself.
  The assignment \<open>o['__proto__'] = v\<close>, when \<open>__proto__\<close> is not an own property,
  runs the inherited setter: it creates no own property, and it replaces the prototype of
  \<open>o\<close> when \<open>v\<close> is an object. For every other name an assignment creates or
  updates an own property. \<open>delete\<close>, \<open>hasOwnProperty\<close>, \<open>_.isEmpty\<close>, \<open>_.values\<close>
  and \<open>_.forEach\<close> look at own properties only.
\<close>

definition objectPrototypeNames :: "string list" where
  "objectPrototypeNames =
     [''constructor'', ''__defineGetter__'', ''__defineSetter__'', ''hasOwnProperty'',
      ''__lookupGetter__'', ''__lookupSetter__'', ''isPrototypeOf'', ''propertyIsEnumerable'',
      ''toString'', ''valueOf'', ''__proto__'', ''toLocaleString'']"

definition inherited :: "string \<Rightarrow> bool" where
  "inherited k = (k \<in> set objectPrototypeNames)"

text \<open>
  \<open>MatchError\<close> is the \<open>Match.Error\<close> thrown by \<open>check\<close>; the other constructors are
  the \<open>Error\<close> objects the collector creates, carrying the part of the message that
  varies, and \<open>Thrown\<close> is any other exception, named by its message or its kind.
  \<open>OutsideModel\<close> is not an exception of the code. It is the result of a call that
  reads a built-in object in place of a document, writes to a built-in object or replaces
  a prototype: what such a call does is not a change of the collector's own properties, and
  the model says nothing about it.
\<close>

datatype error =
    MatchError
  | UnknownPublication string
  | InvalidPublishResult string
  | DuplicatePublish string
  | Thrown string
  | OutsideModel

section \<open>The underscore helpers\<close>

text \<open>
  The functions of underscore that the collector calls, on plain objects. \<open>_.omit\<close>
  copies all properties but one, \<open>_.extend\<close> assigns the properties of the source to the
  destination one after the other, \<open>_.isEmpty\<close> asks for an own enumerable property and
  \<open>_.values\<close> lists the values of the own enumerable properties. Underscore is not part
  of the repository; what it does with an object that it takes for array-like (one with a
  numeric \<open>length\<close>) is not modelled.
\<close>

definition omit :: "'a object \<Rightarrow> string \<Rightarrow> 'a object" where
  "omit obj key = filter (\<lambda>(k, v). k \<noteq> key) obj"

definition extendObj :: "'a object \<Rightarrow> 'a object \<Rightarrow> 'a object" where
  "extendObj dst src = fold (\<lambda>(k, v) d. AList.update k v d) src dst"

definition isEmpty :: "'a object \<Rightarrow> bool" where
  "isEmpty obj = (obj = [])"

definition values_of :: "'a object \<Rightarrow> 'a list" where
  "values_of obj = map snd obj"

section \<open>The collector's documents\<close>

text \<open>
  \<open>_documents\<close> maps a collection name to an object that maps the property key of an id
  to a document. Documents are objects that \<open>changed\<close> updates in place and that a
  response shares with \<open>_documents\<close>, so they live in a store: \<open>heap\<close> holds the
  field mapping of every document object created so far, and a document is referred to
  by its index in \<open>heap\<close>.
\<close>

type_synonym ref = nat

record collector =
  documents :: "ref object object"
  heap :: "fields list"

definition empty_collector :: collector where
  "empty_collector = \<lparr>documents = [], heap = []\<rparr>"

text \<open>\<open>validMongoId = Match.OneOf(String, Mongo.ObjectID)\<close>.\<close>

fun isString :: "val \<Rightarrow> bool" where
  "isString (Str s) = True"
| "isString v = False"

fun validMongoId :: "val \<Rightarrow> bool" where
  "validMongoId (Str s) = True"
| "validMongoId (ObjectID h) = True"
| "validMongoId v = False"

text \<open>
  The property key that \<open>o[v]\<close> uses for a value \<open>v\<close> that passed one of the checks:
  a string is its own key, and an ObjectID is converted by its \<open>toString\<close> method.
\<close>

fun prop_key :: "val \<Rightarrow> string" where
  "prop_key (Str s) = s"
| "prop_key (ObjectID h) = ''ObjectID(\"'' @ h @ ''\")''"
| "prop_key v = []"

text \<open>
  \<open>this._documents[collection]\<close> as the mutation methods read it after
  \<open>_ensureCollectionInRes\<close>: the own properties of the collection object. When the
  name is \<open>__proto__\<close> and not an own property of \<open>_documents\<close>, the object read is
  \<open>Object.prototype\<close>, which has no enumerable own property.
\<close>

definition collection_of :: "collector \<Rightarrow> string \<Rightarrow> ref object" where
  "collection_of st c = (case map_of (documents st) c of Some inner \<Rightarrow> inner | None \<Rightarrow> [])"

text \<open>
  \<open>this._documents[collection] = this._documents[collection] || {}\<close>. An own property
  is assigned to itself. Otherwise, for the name \<open>__proto__\<close> the value read is
  \<open>Object.prototype\<close> and the assignment runs the setter: no entry is created. For any
  other name of \<open>objectPrototypeNames\<close> the value read is a built-in function, which
  becomes the value of a new own property: the entry then holds that function's enumerable
  own properties, of which there are none. For every other name the entry is a new empty
  object.
\<close>

definition ensureCollectionInRes :: "string \<Rightarrow> collector \<Rightarrow> collector" where
  "ensureCollectionInRes c st =
     (case map_of (documents st) c of
        Some inner \<Rightarrow> st\<lparr>documents := AList.update c inner (documents st)\<rparr>
      | None \<Rightarrow>
          if c = ''__proto__'' then st
          else st\<lparr>documents := AList.update c [] (documents st)\<rparr>)"

text \<open>
  \<open>added\<close> is outside the model when the collection object is a built-in object (the
  collection name is one of \<open>objectPrototypeNames\<close>), when the id is \<open>__proto__\<close>
  (the assignment would replace the collection object's prototype by the document and
  store nothing) and when the payload has an own property \<open>__proto__\<close> (the copy made
  by \<open>_.omit\<close> would get a new prototype).
\<close>

definition added :: "val \<Rightarrow> val \<Rightarrow> fields \<Rightarrow> collector \<Rightarrow> error + collector" where
  "added collection id' flds st =
     (if \<not> isString collection then Inl MatchError
      else if \<not> validMongoId id' then Inl MatchError
      else if inherited (prop_key collection) \<or> prop_key id' = ''__proto__'' \<or>
              ''__proto__'' \<in> fst ` set flds
      then Inl OutsideModel
      else
        let c = prop_key collection;
            st1 = ensureCollectionInRes c st;
            addedDocument = extendObj [(''_id'', id')] (omit flds ''_id'');
            r = length (heap st1)
        in Inr (st1\<lparr>heap := heap st1 @ [addedDocument],
                    documents := AList.update c
                      (AList.update (prop_key id') r (collection_of st1 c)) (documents st1)\<rparr>))"

text \<open>
  \<open>changed\<close> reads \<open>existingDocument\<close> through the prototype chain. It is outside the
  model when the collection object is a built-in function or an own property
  \<open>__proto__\<close> of \<open>_documents\<close>; when the id is not an own property of the collection
  object but one of \<open>objectPrototypeNames\<close>, so that a built-in object is found and
  written to; and when a document is found and the payload has an own property
  \<open>__proto__\<close>. For the collection name \<open>__proto__\<close> that is not an own property,
  the collection object is \<open>Object.prototype\<close> and no entry is created.
\<close>

definition changed :: "val \<Rightarrow> val \<Rightarrow> fields \<Rightarrow> collector \<Rightarrow> error + collector" where
  "changed collection id' flds st =
     (if \<not> isString collection then Inl MatchError
      else if \<not> validMongoId id' then Inl MatchError
      else if (if prop_key collection = ''__proto__''
               then prop_key collection \<in> fst ` set (documents st)
               else inherited (prop_key collection))
      then Inl OutsideModel
      else
        let c = prop_key collection;
            st1 = ensureCollectionInRes c st;
            existingDocument = map_of (collection_of st1 c) (prop_key id');
            fieldsNoId = omit flds ''_id''
        in case existingDocument of
             None \<Rightarrow> if inherited (prop_key id') then Inl OutsideModel else Inr st1
           | Some r \<Rightarrow>
               if ''__proto__'' \<in> fst ` set flds then Inl OutsideModel
               else
                 Inr (st1\<lparr>heap := (heap st1)[r :=
                      fold (\<lambda>(key, value) d. if value = Undefined then AList.delete key d else d)
                        flds (extendObj (heap st1 ! r) fieldsNoId)]\<rparr>))"

text \<open>
  \<open>removed\<close> deletes an own property of the collection object and then, when that object
  has no enumerable own property, the own property of \<open>_documents\<close>. When the collection
  name is \<open>__proto__\<close> and not an own property, the collection object is
  \<open>Object.prototype\<close> and the collector is left as it is. What the \<open>delete\<close> does to a
  built-in object when the collection name is one of \<open>objectPrototypeNames\<close> is not part
  of the state.
\<close>

definition removed :: "val \<Rightarrow> val \<Rightarrow> collector \<Rightarrow> error + collector" where
  "removed collection id' st =
     (if \<not> isString collection then Inl MatchError
      else if \<not> validMongoId id' then Inl MatchError
      else
        let c = prop_key collection;
            st1 = ensureCollectionInRes c st;
            st2 = (if c \<in> fst ` set (documents st1)
                   then st1\<lparr>documents := AList.update c
                          (AList.delete (prop_key id') (collection_of st1 c)) (documents st1)\<rparr>
                   else st1)
        in Inr (if isEmpty (collection_of st2 c)
                then st2\<lparr>documents := AList.delete c (documents st2)\<rparr>
                else st2))"

text \<open>
  A response maps each collection name to the array of its document objects. The arrays
  are new, the documents in them are the stored ones: the response holds references.
\<close>

type_synonym response = "ref list object"

definition generateResponse :: "collector \<Rightarrow> response" where
  "generateResponse st =
     fold (\<lambda>(collectionName, docs) output. AList.update collectionName (values_of docs) output)
       (documents st) []"

text \<open>What a reader of a response sees when the store is \<open>h\<close>.\<close>

definition contents :: "fields list \<Rightarrow> response \<Rightarrow> fields list object" where
  "contents h res = map (\<lambda>(collectionName, refs). (collectionName, map (\<lambda>r. h ! r) refs)) res"

section \<open>Sequences of mutation calls\<close>

datatype call =
    Added val val fields
  | Changed val val fields
  | Removed val val

fun apply_call :: "call \<Rightarrow> collector \<Rightarrow> error + collector" where
  "apply_call (Added collection id' flds) st = added collection id' flds st"
| "apply_call (Changed collection id' flds) st = changed collection id' flds st"
| "apply_call (Removed collection id') st = removed collection id' st"

text \<open>Calls made one after the other; the first one that throws ends the sequence.\<close>

fun run_calls :: "call list \<Rightarrow> collector \<Rightarrow> error + collector" where
  "run_calls [] st = Inr st"
| "run_calls (c # cs) st =
     (case apply_call c st of Inl e \<Rightarrow> Inl e | Inr st' \<Rightarrow> run_calls cs st')"

section \<open>The subscription: events, timer and promise\<close>

text \<open>
  One \<open>PublicationCollector\<close> together with what \<open>collect\<close> attaches to it: the
  one-time listener for \<open>ready\<close>, the one-time listeners for \<open>stop\<close>, the timeout
  that the ready listener may set, and the promise that \<open>collect\<close> returns (\<open>None\<close>
  before \<open>collect\<close>). A promise is settled once: resolving or rejecting a promise that
  is no longer pending does nothing. The caller's callback, when there is one, returns
  or throws; \<open>callbackArgs\<close> lists what it was called with. \<open>started\<close> lists the
  collection names of the cursors whose \<open>_publishCursor\<close> has been called. The callback
  and the listeners for \<open>stop\<close> are taken not to call the collector's methods, and the
  listeners for \<open>stop\<close> to return. One collector serves one \<open>collect\<close>.
\<close>

datatype promise = Pending | Fulfilled "ref list object" | Rejected error

datatype callback = Returns | Throws string

record session =
  store :: collector
  delayInMs :: "int option"
  readyListener :: bool
  stopListeners :: nat
  stopsFired :: nat
  timerPending :: bool
  callback :: "callback option"
  callbackArgs :: "response list"
  promise :: "promise option"
  started :: "string list"

text \<open>
  The constructor checks \<open>opts.delayInMs\<close> against \<open>Match.Optional(Match.Integer)\<close>
  (\<open>Match.Integer\<close> accepts the numbers \<open>n\<close> with \<open>(n | 0) === n\<close>, the 32-bit
  signed integers) and \<open>opts.userId\<close> against \<open>Match.Optional(String)\<close>; \<open>userId\<close>
  is only handed on to the publish handler and is not kept in the model.
\<close>

definition new_session :: "int option \<Rightarrow> session" where
  "new_session delay =
     \<lparr>store = empty_collector, delayInMs = delay, readyListener = False,
      stopListeners = 0, stopsFired = 0, timerPending = False,
      callback = None, callbackArgs = [], promise = None, started = []\<rparr>"

definition constructor :: "val \<Rightarrow> val \<Rightarrow> error + session" where
  "constructor userId delay =
     (if \<not> (userId = Undefined \<or> isString userId) then Inl MatchError
      else case delay of
        Undefined \<Rightarrow> Inr (new_session None)
      | Num n \<Rightarrow>
          if - 2147483648 \<le> n \<and> n \<le> 2147483647 then Inr (new_session (Some n))
          else Inl MatchError
      | _ \<Rightarrow> Inl MatchError)"

definition onStop :: "session \<Rightarrow> session" where
  "onStop s = s\<lparr>stopListeners := stopListeners s + 1\<rparr>"

definition stop :: "session \<Rightarrow> session" where
  "stop s = s\<lparr>stopsFired := stopsFired s + stopListeners s, stopListeners := 0\<rparr>"

definition resolve :: "response \<Rightarrow> session \<Rightarrow> session" where
  "resolve collections s =
     (if promise s = Some Pending then s\<lparr>promise := Some (Fulfilled collections)\<rparr> else s)"

definition reject :: "error \<Rightarrow> session \<Rightarrow> session" where
  "reject e s = (if promise s = Some Pending then s\<lparr>promise := Some (Rejected e)\<rparr> else s)"

text \<open>
  \<open>done\<close> followed by the \<open>finally\<close> block of \<open>completeCollecting\<close>: the callback is
  called before the promise is resolved, so a callback that throws leaves the promise as it
  is; \<open>stop\<close> runs in both cases, and the exception goes on to the caller.
\<close>

definition completeCollecting :: "response \<Rightarrow> session \<Rightarrow> session \<times> error option" where
  "completeCollecting collections s =
     (case callback s of
        None \<Rightarrow> (stop (resolve collections s), None)
      | Some Returns \<Rightarrow>
          (stop (resolve collections (s\<lparr>callbackArgs := callbackArgs s @ [collections]\<rparr>)), None)
      | Some (Throws msg) \<Rightarrow>
          (stop (s\<lparr>callbackArgs := callbackArgs s @ [collections]\<rparr>), Some (Thrown msg)))"

text \<open>
  \<open>ready\<close> emits the event with a response generated now; the listener that \<open>collect\<close>
  registered with \<open>once\<close> is removed and run. \<open>this.delayInMs\<close> is truthy when it is a
  number other than 0.
\<close>

definition ready :: "session \<Rightarrow> session \<times> error option" where
  "ready s =
     (let collections = generateResponse (store s) in
      if readyListener s then
        (let s1 = s\<lparr>readyListener := False\<rparr> in
         if (case delayInMs s1 of None \<Rightarrow> False | Some d \<Rightarrow> d \<noteq> 0)
         then (s1\<lparr>timerPending := True\<rparr>, None)
         else completeCollecting collections s1)
      else (s, None))"

text \<open>
  The function handed to \<open>Meteor.setTimeout\<close>, run when the timer fires. What it throws
  reaches no method of the collector.
\<close>

definition timerFires :: "session \<Rightarrow> session" where
  "timerFires s =
     (if timerPending s
      then (let s1 = s\<lparr>timerPending := False\<rparr>;
                collections = generateResponse (store s1)
            in fst (completeCollecting collections s1))
      else s)"

text \<open>
  What a publish handler or a cursor does with the collector it is given: it calls the
  mutation methods, \<open>ready\<close>, \<open>stop\<close>, \<open>onStop\<close>, or throws (\<open>error(e)\<close> throws
  \<open>e\<close>). An exception leaves the state as it is at that point.
\<close>

datatype action =
    Call call
  | Ready
  | Stop
  | OnStop
  | Throw string

fun perform :: "action \<Rightarrow> session \<Rightarrow> session \<times> error option" where
  "perform (Call c) s =
     (case apply_call c (store s) of
        Inl e \<Rightarrow> (s, Some e)
      | Inr st \<Rightarrow> (s\<lparr>store := st\<rparr>, None))"
| "perform Ready s = ready s"
| "perform Stop s = (stop s, None)"
| "perform OnStop s = (onStop s, None)"
| "perform (Throw msg) s = (s, Some (Thrown msg))"

fun perform_all :: "action list \<Rightarrow> session \<Rightarrow> session \<times> error option" where
  "perform_all [] s = (s, None)"
| "perform_all (a # as) s =
     (case perform a s of
        (s', Some e) \<Rightarrow> (s', Some e)
      | (s', None) \<Rightarrow> perform_all as s')"

section \<open>The publish handler's result\<close>

text \<open>
  A cursor has a collection name and, when asked to publish, acts on the collector. What
  a handler returns is a cursor (\<open>Cur\<close>), an array (\<open>Arr\<close>), or any other value
  (\<open>Plain\<close>). A plain value has no method: calling \<open>_getCollectionName\<close> on it throws
  a TypeError.
\<close>

datatype cursor = Cursor (getCollectionName: string) (publishCursor: "action list")

datatype result =
    Plain val
  | Cur cursor
  | Arr "result list"

fun truthy :: "val \<Rightarrow> bool" where
  "truthy Undefined = False"
| "truthy Null = False"
| "truthy (Bool b) = b"
| "truthy (Num n) = (n \<noteq> 0)"
| "truthy (Str s) = (s \<noteq> [])"
| "truthy (ObjectID h) = True"
| "truthy (Obj fs) = True"

fun truthyResult :: "result \<Rightarrow> bool" where
  "truthyResult (Plain v) = truthy v"
| "truthyResult r = True"

text \<open>
  \<open>_isCursor(c)\<close> is \<open>c && c._publishCursor\<close>: it holds of a cursor and of every
  object that has a truthy property \<open>_publishCursor\<close>.
\<close>

fun isCursor :: "result \<Rightarrow> bool" where
  "isCursor (Cur c) = True"
| "isCursor (Plain (Obj fs)) =
     (case map_of fs ''_publishCursor'' of None \<Rightarrow> False | Some v \<Rightarrow> truthy v)"
| "isCursor (Plain v) = False"
| "isCursor (Arr rs) = False"

fun isArray :: "result \<Rightarrow> bool" where
  "isArray (Arr rs) = True"
| "isArray r = False"

fun elements :: "result \<Rightarrow> result list" where
  "elements (Arr rs) = rs"
| "elements r = []"

text \<open>
  The loop that looks for duplicate collection names. \<open>collectionNames\<close> holds the own
  properties of the object of that name and \<open>cursors\<close> the elements pushed so far. The
  assignment \<open>collectionNames[collectionName] = true\<close> creates no own property when the
  name is \<open>__proto__\<close>.
\<close>

fun findDuplicates :: "result list \<Rightarrow> string list \<Rightarrow> result list \<Rightarrow> error + result list" where
  "findDuplicates [] collectionNames cursors = Inr cursors"
| "findDuplicates (Cur c # res) collectionNames cursors =
     (let collectionName = getCollectionName c in
      if collectionName \<in> set collectionNames then Inl (DuplicatePublish collectionName)
      else findDuplicates res
             (if collectionName = ''__proto__'' then collectionNames
              else collectionName # collectionNames)
             (cursors @ [Cur c]))"
| "findDuplicates (r # res) collectionNames cursors = Inl (Thrown ''TypeError'')"

text \<open>The first part of \<open>_publishHandlerResult\<close>: the elements to publish, or the error.\<close>

definition cursorsOf :: "result \<Rightarrow> error + result list" where
  "cursorsOf res =
     (if isCursor res then Inr [res]
      else if isArray res then
        (let areCursors = fold (\<lambda>cur valid. valid \<and> isCursor cur) (elements res) True in
         if \<not> areCursors
         then Inl (InvalidPublishResult ''Publish function returned an array of non-Cursors'')
         else findDuplicates (elements res) [] [])
      else if truthyResult res
      then Inl (InvalidPublishResult
                  ''Publish function can only return a Cursor or an array of Cursors'')
      else Inr [])"

text \<open>The body of \<open>cursors.forEach\<close>; an exception ends the loop.\<close>

fun publishAll :: "result list \<Rightarrow> session \<Rightarrow> session \<times> error option" where
  "publishAll [] s = (s, None)"
| "publishAll (Cur cur # cursors) s =
     (let s1 = s\<lparr>store := ensureCollectionInRes (getCollectionName cur) (store s)\<rparr>;
          s2 = s1\<lparr>started := started s1 @ [getCollectionName cur]\<rparr>
      in case perform_all (publishCursor cur) s2 of
           (s3, Some e) \<Rightarrow> (s3, Some e)
         | (s3, None) \<Rightarrow> publishAll cursors s3)"
| "publishAll (r # cursors) s = (s, Some (Thrown ''TypeError''))"

definition publishHandlerResult :: "result \<Rightarrow> session \<Rightarrow> session \<times> error option" where
  "publishHandlerResult res s =
     (case cursorsOf res of
        Inl e \<Rightarrow> (s, Some e)
      | Inr cursors \<Rightarrow>
          if length cursors > 0 \<or> isArray res
          then (case publishAll cursors s of
                  (s', Some e) \<Rightarrow> (s', Some e)
                | (s', None) \<Rightarrow> ready s')
          else (s, None))"

section \<open>collect\<close>

text \<open>
  The registry \<open>Meteor.server.publish_handlers\<close> is a parameter. A handler, given the
  arguments, acts on the collector and returns a result. \<open>cb\<close> is the callback when the
  last argument was one. An unknown name makes \<open>collect\<close> throw, before there is a
  promise. Anything thrown while the handler runs or its result is published rejects the
  promise, and \<open>collect\<close> returns.
\<close>

type_synonym handler = "val list \<Rightarrow> action list \<times> result"

definition collect ::
  "(string \<Rightarrow> handler option) \<Rightarrow> string \<Rightarrow> val list \<Rightarrow> callback option \<Rightarrow> session \<Rightarrow>
     session \<times> error option"
where
  "collect publish_handlers name args cb s =
     (case publish_handlers name of
        None \<Rightarrow> (s, Some (UnknownPublication name))
      | Some handler \<Rightarrow>
          (let s1 = s\<lparr>callback := cb, promise := Some Pending, readyListener := True\<rparr> in
           case perform_all (fst (handler args)) s1 of
             (s2, Some e) \<Rightarrow> (reject e s2, None)
           | (s2, None) \<Rightarrow>
               (case publishHandlerResult (snd (handler args)) s2 of
                  (s3, Some e) \<Rightarrow> (reject e s3, None)
                | (s3, None) \<Rightarrow> (s3, None))))"

text \<open>What happens after \<open>collect\<close> has returned: a source acts, or the timer fires.\<close>

datatype event = Does action | TimerFires

fun step :: "event \<Rightarrow> session \<Rightarrow> session" where
  "step (Does a) s = fst (perform a s)"
| "step TimerFires s = timerFires s"

definition steps :: "event list \<Rightarrow> session \<Rightarrow> session" where
  "steps evs s = fold step evs s"

section \<open>Notions used by the properties\<close>

text \<open>Every collection that is present holds at least one document.\<close>

definition nonempty_collections :: "collector \<Rightarrow> bool" where
  "nonempty_collections st = (\<forall>(c, inner) \<in> set (documents st). inner \<noteq> [])"

text \<open>
  \<open>mutate\<close> is a mutation call as the collector's state sees it: a call that throws has
  changed nothing. \<open>calls_of\<close> lists the mutation calls among a sequence of events.
\<close>

definition mutate :: "call \<Rightarrow> collector \<Rightarrow> collector" where
  "mutate c st = (case apply_call c st of Inl e \<Rightarrow> st | Inr st' \<Rightarrow> st')"

fun calls_of :: "event list \<Rightarrow> call list" where
  "calls_of [] = []"
| "calls_of (Does (Call c) # evs) = c # calls_of evs"
| "calls_of (ev # evs) = calls_of evs"

text \<open>
  The document that a \<open>changed\<close> call finds and updates, if any, and the documents that
  the \<open>changed\<close> calls of a sequence update, each looked up in the state its call meets.
\<close>

fun changedDocument :: "call \<Rightarrow> collector \<Rightarrow> ref option" where
  "changedDocument (Changed collection id' flds) st =
     (if isString collection \<and> validMongoId id'
      then map_of (collection_of st (prop_key collection)) (prop_key id')
      else None)"
| "changedDocument c st = None"


text \<open>The same for calls of which those that throw are passed over, as in \<open>mutate\<close>.\<close>

fun changedBy :: "call list \<Rightarrow> collector \<Rightarrow> ref list" where
  "changedBy [] st = []"
| "changedBy (c # cs) st =
     (case changedDocument c st of None \<Rightarrow> [] | Some r \<Rightarrow> [r]) @ changedBy cs (mutate c st)"

text \<open>Every stored reference points into the store, and the documents a response lists.\<close>

definition valid_refs :: "collector \<Rightarrow> bool" where
  "valid_refs st =
     (\<forall>(c, inner) \<in> set (documents st). \<forall>(k, r) \<in> set inner. r < length (heap st))"

definition refs_of :: "response \<Rightarrow> ref set" where
  "refs_of res = (\<Union>(c, refs) \<in> set res. set refs)"

text \<open>
  The documents as section 4.1 of the specification describes the operations: a map from
  a collection name and an id to the document's field mapping, folded over the calls from
  left to right. \<open>added\<close> overwrites the document at its id with the payload, any \<open>_id\<close>
  of the payload ignored and \<open>_id\<close> set to the id. \<open>changed\<close> does nothing when there is
  no document at its id; otherwise it merges the payload field by field, deleting a field
  whose payload value is \<open>undefined\<close> and setting any other, and it never alters the
  \<open>_id\<close> key. \<open>removed\<close> deletes the document at its id. Documents are addressed by
  the property key of their id.
\<close>

type_synonym docmap = "string \<times> string \<Rightarrow> (string \<Rightarrow> val option) option"

fun spec_call :: "call \<Rightarrow> docmap \<Rightarrow> docmap" where
  "spec_call (Added collection id' flds) m =
     m((prop_key collection, prop_key id') \<mapsto> (map_of flds)(''_id'' \<mapsto> id'))"
| "spec_call (Changed collection id' flds) m =
     (case m (prop_key collection, prop_key id') of
        None \<Rightarrow> m
      | Some d \<Rightarrow>
          m((prop_key collection, prop_key id') \<mapsto>
             (\<lambda>field. if field = ''_id'' then d field
                      else case map_of flds field of
                             None \<Rightarrow> d field
                           | Some value \<Rightarrow> if value = Undefined then None else Some value)))"
| "spec_call (Removed collection id') m = m((prop_key collection, prop_key id') := None)"

definition spec_fold :: "call list \<Rightarrow> docmap" where
  "spec_fold calls = fold spec_call calls (\<lambda>key. None)"

definition spec_documents :: "docmap \<Rightarrow> string \<Rightarrow> (string \<Rightarrow> val option) set" where
  "spec_documents m c = {d. \<exists>k. m (c, k) = Some d}"

text \<open>The set of documents that the response generated from a state lists for a collection.\<close>

definition response_documents :: "collector \<Rightarrow> string \<Rightarrow> (string \<Rightarrow> val option) set" where
  "response_documents st c =
     (case map_of (generateResponse st) c of
        None \<Rightarrow> {}
      | Some refs \<Rightarrow> (\<lambda>r. map_of (heap st ! r)) ` set refs)"

text \<open>
  The stored document of a collection and id key, and the state seen as a map of documents.
\<close>

definition lookup :: "collector \<Rightarrow> string \<Rightarrow> string \<Rightarrow> ref option" where
  "lookup st c k = map_of (collection_of st c) k"

definition view :: "collector \<Rightarrow> docmap" where
  "view st = (\<lambda>(c, k). map_option (\<lambda>r. map_of (heap st ! r)) (lookup st c k))"

text \<open>
  What holds of every state the mutation calls produce: keys are not repeated, every
  reference points into the store, and no document object is stored in two places.
\<close>

definition consistent :: "collector \<Rightarrow> bool" where
  "consistent st =
     (distinct (map fst (documents st)) \<and>
      (\<forall>c. distinct (map fst (collection_of st c))) \<and>
      (\<forall>c k r. lookup st c k = Some r \<longrightarrow> r < length (heap st)) \<and>
      (\<forall>c k c' k' r. lookup st c k = Some r \<longrightarrow> lookup st c' k' = Some r \<longrightarrow> c = c' \<and> k = k'))"

text \<open>
  A call with arguments that pass the checks, and the payload of a call. A payload is an
  object, so no key occurs twice in it. \<open>unsets_id\<close> holds of a \<open>changed\<close> call whose
  payload maps \<open>_id\<close> to \<open>undefined\<close>.
\<close>

fun valid_call :: "call \<Rightarrow> bool" where
  "valid_call (Added collection id' flds) = (isString collection \<and> validMongoId id')"
| "valid_call (Changed collection id' flds) = (isString collection \<and> validMongoId id')"
| "valid_call (Removed collection id') = (isString collection \<and> validMongoId id')"

fun payload :: "call \<Rightarrow> fields" where
  "payload (Added collection id' flds) = flds"
| "payload (Changed collection id' flds) = flds"
| "payload (Removed collection id') = []"

fun unsets_id :: "call \<Rightarrow> bool" where
  "unsets_id (Changed collection id' flds) = ((''_id'', Undefined) \<in> set flds)"
| "unsets_id c = False"

text \<open>
  A call that stays with the collector's own objects whatever the state: neither its
  collection name nor its id is the name of a property of \<open>Object.prototype\<close>, and its
  payload has no own property \<open>__proto__\<close>.
\<close>

fun ordinary_call :: "call \<Rightarrow> bool" where
  "ordinary_call (Added collection id' flds) =
     (\<not> inherited (prop_key collection) \<and> \<not> inherited (prop_key id') \<and>
      ''__proto__'' \<notin> fst ` set flds)"
| "ordinary_call (Changed collection id' flds) =
     (\<not> inherited (prop_key collection) \<and> \<not> inherited (prop_key id') \<and>
      ''__proto__'' \<notin> fst ` set flds)"
| "ordinary_call (Removed collection id') =
     (\<not> inherited (prop_key collection) \<and> \<not> inherited (prop_key id'))"

text \<open>
  Two responses have the same collection names and list the same documents for each of
  them, in whatever order.
\<close>

definition same_documents :: "response \<Rightarrow> response \<Rightarrow> bool" where
  "same_documents res res' = (\<forall>c. map_option set (map_of res c) = map_option set (map_of res' c))"

text \<open>The caller gave no callback, or one that returns.\<close>

fun callbackReturns :: "callback option \<Rightarrow> bool" where
  "callbackReturns (Some (Throws msg)) = False"
| "callbackReturns cb = True"

text \<open>A DataSource has both capabilities, the collection name and the streaming start.\<close>

fun isDataSource :: "result \<Rightarrow> bool" where
  "isDataSource (Cur c) = True"
| "isDataSource r = False"

section \<open>Facts about objects and the mutation methods\<close>

lemma update_absent: "k \<notin> fst ` set al \<Longrightarrow> AList.update k v al = al @ [(k, v)]"
  by (induction al) auto

lemma map_of_absent: "(map_of al k = None) = (k \<notin> fst ` set al)"
  by (simp add: map_of_eq_None_iff)

lemma map_of_present: "k \<in> fst ` set al \<Longrightarrow> \<exists>v. map_of al k = Some v"
  using map_of_absent [of al k] by auto

lemma update_append_last:
  "k \<notin> fst ` set al \<Longrightarrow> AList.update k v (al @ [(k, w)]) = al @ [(k, v)]"
  by (induction al) auto

lemma delete_append: "AList.delete k (xs @ ys) = AList.delete k xs @ AList.delete k ys"
  by (simp add: AList.delete_eq)

lemma delete_append_last:
  "k \<notin> fst ` set al \<Longrightarrow> AList.delete k (al @ [(k, w)]) = al"
  by (simp add: delete_append)

lemma set_update_subset: "set (AList.update k v al) \<subseteq> insert (k, v) (set al)"
  by (induction al) auto

lemma set_delete: "set (AList.delete k al) = {p \<in> set al. fst p \<noteq> k}"
  by (auto simp: AList.delete_eq)

lemma delete_all_keys: "fst ` set al \<subseteq> {k} \<Longrightarrow> AList.delete k al = []"
  by (induction al) auto

lemma ensure_present:
  "map_of (documents st) c = Some inner \<Longrightarrow> ensureCollectionInRes c st = st"
  by (simp add: ensureCollectionInRes_def AList.update_triv)

lemma ensure_absent:
  "c \<notin> fst ` set (documents st) \<Longrightarrow>
   ensureCollectionInRes c st =
     (if c = ''__proto__'' then st else st\<lparr>documents := documents st @ [(c, [])]\<rparr>)"
  by (simp add: ensureCollectionInRes_def update_absent map_of_absent [symmetric])

lemma heap_ensure [simp]: "heap (ensureCollectionInRes c st) = heap st"
  by (cases "map_of (documents st) c") (simp_all add: ensureCollectionInRes_def)

lemma documents_ensure:
  "documents (ensureCollectionInRes c st) =
     (if c \<in> fst ` set (documents st) \<or> c = ''__proto__'' then documents st
      else documents st @ [(c, [])])"
proof (cases "map_of (documents st) c")
  case None
  then show ?thesis by (simp add: ensure_absent map_of_absent)
next
  case (Some inner)
  then have "c \<in> fst ` set (documents st)"
    using map_of_absent [of "documents st" c] by auto
  then show ?thesis using Some by (simp add: ensure_present)
qed

lemma collection_of_absent:
  "c \<notin> fst ` set (documents st) \<Longrightarrow> collection_of st c = []"
  by (simp add: collection_of_def map_of_absent [symmetric])

lemma collection_of_ensure_any:
  "collection_of (ensureCollectionInRes c st) c' = collection_of st c'"
proof (cases "c \<in> fst ` set (documents st) \<or> c = ''__proto__''")
  case True
  then show ?thesis by (simp add: collection_of_def documents_ensure)
next
  case False
  then have "map_of (documents st) c = None"
    by (simp add: map_of_absent)
  then show ?thesis using False
    by (simp add: collection_of_def documents_ensure map_add_def split: option.splits)
qed

lemma collection_of_ensure:
  "collection_of (ensureCollectionInRes c st) c = collection_of st c"
  by (rule collection_of_ensure_any)

lemma collection_of_documents_update [simp]:
  "collection_of (st\<lparr>documents := AList.update c inner ds\<rparr>) c = inner"
  by (simp add: collection_of_def AList.update_conv')

text \<open>The three mutation methods, each as one equation.\<close>

lemma added_eq:
  assumes "isString collection" and "validMongoId id'"
  shows "added collection id' flds st =
     (if inherited (prop_key collection) \<or> prop_key id' = ''__proto__'' \<or>
         ''__proto__'' \<in> fst ` set flds
      then Inl OutsideModel
      else Inr (st\<lparr>heap := heap st @ [extendObj [(''_id'', id')] (omit flds ''_id'')],
                   documents := AList.update (prop_key collection)
                     (AList.update (prop_key id') (length (heap st))
                        (collection_of st (prop_key collection)))
                     (documents st)\<rparr>))"
proof (cases "inherited (prop_key collection) \<or> prop_key id' = ''__proto__'' \<or>
         ''__proto__'' \<in> fst ` set flds")
  case True
  then show ?thesis using assms by (simp add: added_def)
next
  case False
  let ?c = "prop_key collection"
  have "?c \<noteq> ''__proto__''"
    using False by (auto simp: inherited_def objectPrototypeNames_def)
  then have "AList.update ?c inner (documents (ensureCollectionInRes ?c st))
      = AList.update ?c inner (documents st)" for inner
    by (simp add: documents_ensure update_append_last update_absent)
  then show ?thesis using assms False
    by (simp add: added_def Let_def collection_of_ensure)
qed

lemma changed_guard:
  "(if c = ''__proto__'' then c \<in> S else inherited c)
     = (inherited c \<and> (c \<noteq> ''__proto__'' \<or> c \<in> S))"
  by (simp add: inherited_def objectPrototypeNames_def)

lemma changed_eq:
  assumes "isString collection" and "validMongoId id'"
  shows "changed collection id' flds st =
     (if inherited (prop_key collection) \<and>
         (prop_key collection \<noteq> ''__proto__'' \<or>
          prop_key collection \<in> fst ` set (documents st))
      then Inl OutsideModel
      else case map_of (collection_of st (prop_key collection)) (prop_key id') of
             None \<Rightarrow> if inherited (prop_key id') then Inl OutsideModel
                     else Inr (ensureCollectionInRes (prop_key collection) st)
           | Some r \<Rightarrow>
               if ''__proto__'' \<in> fst ` set flds then Inl OutsideModel
               else Inr (st\<lparr>heap := (heap st)[r :=
                      fold (\<lambda>(key, value) d. if value = Undefined then AList.delete key d else d)
                        flds (extendObj (heap st ! r) (omit flds ''_id''))]\<rparr>))"
proof (cases "map_of (collection_of st (prop_key collection)) (prop_key id')")
  case None
  then show ?thesis using assms
    by (simp add: changed_def changed_guard Let_def collection_of_ensure)
next
  case (Some r)
  then have "collection_of st (prop_key collection) \<noteq> []" by auto
  then have "prop_key collection \<in> fst ` set (documents st)"
    using collection_of_absent [of "prop_key collection" st] by blast
  then obtain inner where "map_of (documents st) (prop_key collection) = Some inner"
    using map_of_present by fastforce
  then have "ensureCollectionInRes (prop_key collection) st = st"
    by (rule ensure_present)
  then show ?thesis using assms Some
    by (simp add: changed_def changed_guard Let_def)
qed

lemma removed_eq:
  assumes "isString collection" and "validMongoId id'"
  shows "removed collection id' st =
     Inr (if prop_key collection \<in> fst ` set (documents st)
          then (if AList.delete (prop_key id') (collection_of st (prop_key collection)) = []
                then st\<lparr>documents := AList.delete (prop_key collection) (documents st)\<rparr>
                else st\<lparr>documents := AList.update (prop_key collection)
                       (AList.delete (prop_key id') (collection_of st (prop_key collection)))
                       (documents st)\<rparr>)
          else st)"
proof (cases "prop_key collection \<in> fst ` set (documents st)")
  case True
  let ?c = "prop_key collection"
  obtain inner where "map_of (documents st) ?c = Some inner"
    using True map_of_present by fastforce
  then have "ensureCollectionInRes ?c st = st"
    by (rule ensure_present)
  then show ?thesis using assms True
    by (simp add: removed_def Let_def isEmpty_def AList.dom_update AList.delete_update_same)
next
  case False
  let ?c = "prop_key collection"
  have empty: "collection_of st ?c = []"
    using False by (rule collection_of_absent)
  show ?thesis
  proof (cases "?c = ''__proto__''")
    case True
    then have "ensureCollectionInRes ?c st = st"
      using False ensure_absent [of ?c st] by simp
    then show ?thesis using assms False empty
      by (simp add: removed_def Let_def isEmpty_def)
  next
    case proto: False
    have st1: "ensureCollectionInRes ?c st = st\<lparr>documents := documents st @ [(?c, [])]\<rparr>"
      using False proto ensure_absent [of ?c st] by simp
    have "collection_of (ensureCollectionInRes ?c st) ?c = []"
      using empty by (simp add: collection_of_ensure)
    then have inner1: "collection_of (st\<lparr>documents := documents st @ [(?c, [])]\<rparr>) ?c = []"
      by (simp only: st1)
    have upd: "AList.update ?c [] (documents st @ [(?c, [])]) = documents st @ [(?c, [])]"
      using False by (simp add: update_append_last)
    show ?thesis using assms False
      by (simp add: removed_def Let_def isEmpty_def st1 inner1 upd delete_append_last)
  qed
qed

lemma added_total:
  assumes "isString collection" and "validMongoId id'"
    and "\<not> inherited (prop_key collection)" and "prop_key id' \<noteq> ''__proto__''"
    and "''__proto__'' \<notin> fst ` set flds"
  shows "\<exists>st'. added collection id' flds st = Inr st'"
  using assms by (simp add: added_eq)

lemma changed_total:
  assumes "isString collection" and "validMongoId id'"
    and "\<not> inherited (prop_key collection)" and "\<not> inherited (prop_key id')"
    and "''__proto__'' \<notin> fst ` set flds"
  shows "\<exists>st'. changed collection id' flds st = Inr st'"
  using assms by (simp add: changed_eq split: option.splits)

lemma removed_total:
  "isString collection \<Longrightarrow> validMongoId id' \<Longrightarrow> \<exists>st'. removed collection id' st = Inr st'"
  by (simp add: removed_eq)

lemma generateResponse_keys_aux:
  "fst ` set (fold (\<lambda>(collectionName, docs) output. AList.update collectionName (values_of docs) output) ds acc)
     = fst ` set acc \<union> fst ` set ds"
  by (induction ds arbitrary: acc) (simp_all add: AList.dom_update case_prod_beta Un_ac)

lemma generateResponse_keys: "fst ` set (generateResponse st) = fst ` set (documents st)"
  by (simp add: generateResponse_def generateResponse_keys_aux)

section \<open>Mutations that find no document\<close>

lemma inherited_proto: "inherited ''__proto__''"
  by (simp add: inherited_def objectPrototypeNames_def)

lemma generateResponse_snoc:
  "generateResponse (st\<lparr>documents := documents st @ [(c, [])]\<rparr>)
     = AList.update c [] (generateResponse st)"
  by (simp add: generateResponse_def values_of_def)

text \<open>
  Claim C2, as amended. Take a valid collection name and id with no document stored at
  the id, where the id is not the name of a property of \<open>Object.prototype\<close> and the
  collection name is either no such name or \<open>__proto__\<close>, not an own property of
  \<open>_documents\<close>. Then \<open>changed\<close> raises no error, leaves the store of documents
  untouched and alters no stored document. When the collection is present, or its name is
  \<open>__proto__\<close>, the state and with it the response are unchanged. Otherwise
  \<open>_ensureCollectionInRes\<close> has created the collection: \<open>_documents\<close> and the response
  afterwards are those before with the collection name added, mapped to no documents.
\<close>

theorem changed_missing_id:
  assumes "isString collection" and "validMongoId id'"
    and "\<not> inherited (prop_key id')"
    and "inherited (prop_key collection) \<longrightarrow>
           prop_key collection = ''__proto__'' \<and>
           prop_key collection \<notin> fst ` set (documents st)"
    and "prop_key id' \<notin> fst ` set (collection_of st (prop_key collection))"
  shows "\<exists>st'. changed collection id' flds st = Inr st' \<and> heap st' = heap st \<and>
           (if prop_key collection \<in> fst ` set (documents st) \<or>
               prop_key collection = ''__proto__''
            then st' = st
            else map_of (documents st')
                   = (map_of (documents st))(prop_key collection \<mapsto> []) \<and>
                 map_of (generateResponse st')
                   = (map_of (generateResponse st))(prop_key collection \<mapsto> []))"
proof -
  let ?c = "prop_key collection"
  let ?st1 = "ensureCollectionInRes ?c st"
  have "map_of (collection_of st ?c) (prop_key id') = None"
    using assms(5) by (simp add: map_of_absent)
  then have res: "changed collection id' flds st = Inr ?st1"
    using assms(1-4) by (auto simp: changed_eq)
  show ?thesis
  proof (cases "?c \<in> fst ` set (documents st)")
    case True
    then obtain inner where "map_of (documents st) ?c = Some inner"
      using map_of_present by fastforce
    then have "?st1 = st" by (rule ensure_present)
    then show ?thesis using res True by simp
  next
    case False
    show ?thesis
    proof (cases "?c = ''__proto__''")
      case True
      then have "?st1 = st"
        using False ensure_absent [of ?c st] by simp
      then show ?thesis using res True by simp
    next
      case proto: False
      have "?st1 = st\<lparr>documents := documents st @ [(?c, [])]\<rparr>"
        using False proto ensure_absent [of ?c st] by simp
      moreover have "map_of (documents st @ [(?c, [])]) = (map_of (documents st))(?c \<mapsto> [])"
        using False update_absent [of ?c "documents st" "[]"]
          AList.update_conv' [of ?c "[]" "documents st"]
        by simp
      ultimately show ?thesis using res False proto
        by (simp add: generateResponse_snoc AList.update_conv')
    qed
  qed
qed

text \<open>
  The theorem at a state that holds document \<open>1\<close> of collection \<open>c\<close>, for a change of
  the missing document \<open>2\<close>.
\<close>

theorem changed_missing_id_witness:
  "isString (Str ''c'') \<and> validMongoId (Str ''2'') \<and> \<not> inherited (prop_key (Str ''2'')) \<and>
   \<not> inherited (prop_key (Str ''c'')) \<and>
   prop_key (Str ''2'') \<notin> fst ` set (collection_of
      \<lparr>documents = [(''c'', [(''1'', 0)])], heap = [[(''_id'', Str ''1'')]]\<rparr> (prop_key (Str ''c''))) \<and>
   changed (Str ''c'') (Str ''2'') [(''a'', Num 1)]
      \<lparr>documents = [(''c'', [(''1'', 0)])], heap = [[(''_id'', Str ''1'')]]\<rparr>
     = Inr \<lparr>documents = [(''c'', [(''1'', 0)])], heap = [[(''_id'', Str ''1'')]]\<rparr>"
  using changed_missing_id [of "Str ''c''" "Str ''2''"
      "\<lparr>documents = [(''c'', [(''1'', 0)])], heap = [[(''_id'', Str ''1'')]]\<rparr>" "[(''a'', Num 1)]"]
  by (simp add: collection_of_def inherited_def objectPrototypeNames_def)

text \<open>
  Claim C2 as stated fails when the collection is absent: on the empty collector the call
  adds the collection name to the response.
\<close>

theorem changed_missing_id_counterexample:
  "changed (Str ''c'') (Str ''1'') [] empty_collector
     = Inr \<lparr>documents = [(''c'', [])], heap = []\<rparr> \<and>
   generateResponse empty_collector = [] \<and>
   generateResponse \<lparr>documents = [(''c'', [])], heap = []\<rparr> = [(''c'', [])]"
  by (simp add: changed_def ensureCollectionInRes_def empty_collector_def collection_of_def
      generateResponse_def values_of_def inherited_def objectPrototypeNames_def)




section \<open>Collections and emptiness\<close>

lemma nonempty_collections_subset:
  assumes "nonempty_collections st" and "set (documents st') \<subseteq> A \<union> set (documents st)"
    and "\<forall>p \<in> A. snd p \<noteq> []"
  shows "nonempty_collections st'"
  unfolding nonempty_collections_def
proof (clarify)
  fix c assume "(c, []) \<in> set (documents st')"
  then have "(c, []) \<in> A \<or> (c, []) \<in> set (documents st)"
    using assms(2) by blast
  then show False
    using assms(1,3) by (auto simp: nonempty_collections_def)
qed

lemma added_nonempty:
  assumes "nonempty_collections st" and "added collection id' flds st = Inr st'"
  shows "nonempty_collections st'"
proof -
  let ?c = "prop_key collection"
  let ?inner = "AList.update (prop_key id') (length (heap st)) (collection_of st ?c)"
  have valid: "isString collection" "validMongoId id'"
    using assms(2) by (auto simp: added_def split: if_splits)
  then have "documents st' = AList.update ?c ?inner (documents st)"
    using assms(2) by (auto simp: added_eq split: if_splits)
  then have sub: "set (documents st') \<subseteq> {(?c, ?inner)} \<union> set (documents st)"
    using set_update_subset [of ?c ?inner "documents st"] by simp
  show ?thesis
    by (rule nonempty_collections_subset [OF assms(1) sub]) simp
qed

lemma removed_nonempty:
  assumes "nonempty_collections st" and "removed collection id' st = Inr st'"
  shows "nonempty_collections st'"
proof -
  let ?c = "prop_key collection"
  let ?inner = "AList.delete (prop_key id') (collection_of st ?c)"
  have valid: "isString collection" "validMongoId id'"
    using assms(2) by (auto simp: removed_def split: if_splits)
  have sub: "set (documents st') \<subseteq> (if ?inner = [] then {} else {(?c, ?inner)}) \<union> set (documents st)"
    using assms(2) set_update_subset [of ?c ?inner "documents st"]
    by (auto simp: removed_eq [OF valid] set_delete split: if_splits)
  show ?thesis
    by (rule nonempty_collections_subset [OF assms(1) sub]) simp
qed

lemma changed_nonempty:
  assumes "nonempty_collections st" and "changed collection id' flds st = Inr st'"
    and "prop_key collection \<in> fst ` set (documents st)"
  shows "nonempty_collections st'"
proof -
  have valid: "isString collection" "validMongoId id'"
    using assms(2) by (auto simp: changed_def split: if_splits)
  have "documents (ensureCollectionInRes (prop_key collection) st) = documents st"
    using assms(3) by (simp add: documents_ensure)
  then have "documents st' = documents st"
    using assms(2) by (auto simp: changed_eq [OF valid] split: if_splits option.splits)
  then show ?thesis using assms(1) by (simp add: nonempty_collections_def)
qed

text \<open>
  Claim C3, as amended. Take a state in which every present collection holds a document,
  and valid arguments of which neither the collection name nor the id is the name of a
  property of \<open>Object.prototype\<close>, the payload without an own property \<open>__proto__\<close>.
  Then \<open>added\<close> and \<open>removed\<close> lead to such a state again, and so does \<open>changed\<close> when
  the collection it names is already present.
\<close>

theorem mutations_keep_collections_nonempty:
  assumes "isString collection" and "validMongoId id'"
    and "\<not> inherited (prop_key collection)" and "\<not> inherited (prop_key id')"
    and "''__proto__'' \<notin> fst ` set flds"
    and "nonempty_collections st"
  shows "(\<exists>st'. added collection id' flds st = Inr st' \<and> nonempty_collections st') \<and>
         (\<exists>st'. removed collection id' st = Inr st' \<and> nonempty_collections st') \<and>
         (\<exists>st'. changed collection id' flds st = Inr st' \<and>
            (prop_key collection \<in> fst ` set (documents st) \<longrightarrow> nonempty_collections st'))"
proof (intro conjI)
  have "prop_key id' \<noteq> ''__proto__''"
    using assms(4) inherited_proto by auto
  then obtain st' where a: "added collection id' flds st = Inr st'"
    using added_total [OF assms(1-3) _ assms(5), of st] by blast
  then show "\<exists>st'. added collection id' flds st = Inr st' \<and> nonempty_collections st'"
    using added_nonempty [OF assms(6) a] by blast
next
  obtain st' where r: "removed collection id' st = Inr st'"
    using removed_total [OF assms(1,2)] by blast
  then show "\<exists>st'. removed collection id' st = Inr st' \<and> nonempty_collections st'"
    using removed_nonempty [OF assms(6) r] by blast
next
  obtain st' where c: "changed collection id' flds st = Inr st'"
    using changed_total [OF assms(1-5)] by blast
  then show "\<exists>st'. changed collection id' flds st = Inr st' \<and>
      (prop_key collection \<in> fst ` set (documents st) \<longrightarrow> nonempty_collections st')"
    using changed_nonempty [OF assms(6) c] by blast
qed

theorem mutations_keep_collections_nonempty_witness:
  "isString (Str ''c'') \<and> validMongoId (Str ''1'') \<and>
   \<not> inherited (prop_key (Str ''c'')) \<and> \<not> inherited (prop_key (Str ''1'')) \<and>
   ''__proto__'' \<notin> fst ` set [(''a'', Num 1)] \<and>
   nonempty_collections \<lparr>documents = [(''c'', [(''1'', 0)])], heap = [[(''_id'', Str ''1'')]]\<rparr> \<and>
   prop_key (Str ''c'') \<in> fst ` set (documents
      \<lparr>documents = [(''c'', [(''1'', 0)])], heap = [[(''_id'', Str ''1'')]]\<rparr>) \<and>
   (\<exists>st'. added (Str ''c'') (Str ''1'') [(''a'', Num 1)]
        \<lparr>documents = [(''c'', [(''1'', 0)])], heap = [[(''_id'', Str ''1'')]]\<rparr> = Inr st' \<and>
      nonempty_collections st') \<and>
   (\<exists>st'. removed (Str ''c'') (Str ''1'')
        \<lparr>documents = [(''c'', [(''1'', 0)])], heap = [[(''_id'', Str ''1'')]]\<rparr> = Inr st' \<and>
      nonempty_collections st') \<and>
   (\<exists>st'. changed (Str ''c'') (Str ''1'') [(''a'', Num 1)]
        \<lparr>documents = [(''c'', [(''1'', 0)])], heap = [[(''_id'', Str ''1'')]]\<rparr> = Inr st' \<and>
      nonempty_collections st')"
  using mutations_keep_collections_nonempty [of "Str ''c''" "Str ''1''" "[(''a'', Num 1)]"
      "\<lparr>documents = [(''c'', [(''1'', 0)])], heap = [[(''_id'', Str ''1'')]]\<rparr>"]
  by (simp add: nonempty_collections_def inherited_def objectPrototypeNames_def)

text \<open>
  Claim C3 as stated fails for \<open>changed\<close>: on the empty collector, where every present
  collection holds a document, it leaves the collection it names present and empty.
\<close>

theorem mutations_keep_collections_nonempty_counterexample:
  "nonempty_collections empty_collector \<and>
   changed (Str ''c'') (Str ''1'') [] empty_collector
     = Inr \<lparr>documents = [(''c'', [])], heap = []\<rparr> \<and>
   \<not> nonempty_collections \<lparr>documents = [(''c'', [])], heap = []\<rparr>"
  by (simp add: changed_def ensureCollectionInRes_def empty_collector_def collection_of_def
      nonempty_collections_def inherited_def objectPrototypeNames_def)

text \<open>
  Claim C6. When a collection holds only the document at an id, \<open>removed\<close> for that
  collection and id succeeds, and the response generated afterwards has no entry for the
  collection name (rather than an entry with an empty list).
\<close>

theorem removed_only_document:
  assumes "isString collection" and "validMongoId id'"
    and "fst ` set (collection_of st (prop_key collection)) = {prop_key id'}"
  shows "\<exists>st'. removed collection id' st = Inr st' \<and>
           map_of (generateResponse st') (prop_key collection) = None"
proof -
  let ?c = "prop_key collection"
  have empty: "AList.delete (prop_key id') (collection_of st ?c) = []"
    using assms(3) by (simp add: delete_all_keys)
  have "collection_of st ?c \<noteq> []"
    using assms(3) by auto
  then have "?c \<in> fst ` set (documents st)"
    using collection_of_absent [of ?c st] by blast
  then have "removed collection id' st =
      Inr (st\<lparr>documents := AList.delete ?c (documents st)\<rparr>)"
    using assms(1,2) empty by (simp add: removed_eq)
  moreover have "?c \<notin> fst ` set (generateResponse
      (st\<lparr>documents := AList.delete ?c (documents st)\<rparr>))"
    by (simp add: generateResponse_keys AList.delete_notin_dom)
  ultimately show ?thesis by (simp add: map_of_absent)
qed

text \<open>
  The round trip of the claim: \<open>added\<close> on the empty collector, then \<open>removed\<close> of the
  same document.
\<close>

theorem removed_only_document_witness:
  "isString (Str ''c'') \<and> validMongoId (Str ''1'') \<and>
   added (Str ''c'') (Str ''1'') [(''color'', Str ''red'')] empty_collector
     = Inr \<lparr>documents = [(''c'', [(''1'', 0)])],
            heap = [[(''_id'', Str ''1''), (''color'', Str ''red'')]]\<rparr> \<and>
   fst ` set (collection_of \<lparr>documents = [(''c'', [(''1'', 0)])],
            heap = [[(''_id'', Str ''1''), (''color'', Str ''red'')]]\<rparr> (prop_key (Str ''c'')))
     = {prop_key (Str ''1'')} \<and>
   (\<exists>st'. removed (Str ''c'') (Str ''1'') \<lparr>documents = [(''c'', [(''1'', 0)])],
            heap = [[(''_id'', Str ''1''), (''color'', Str ''red'')]]\<rparr> = Inr st' \<and>
      map_of (generateResponse st') ''c'' = None)"
  using removed_only_document [of "Str ''c''" "Str ''1''"
      "\<lparr>documents = [(''c'', [(''1'', 0)])],
        heap = [[(''_id'', Str ''1''), (''color'', Str ''red'')]]\<rparr>"]
  by (simp add: collection_of_def added_def ensureCollectionInRes_def empty_collector_def
      extendObj_def omit_def inherited_def objectPrototypeNames_def)

section \<open>A response and later mutations\<close>

lemma heap_added:
  "added collection id' flds st = Inr st' \<Longrightarrow> \<exists>d. heap st' = heap st @ [d]"
  by (auto simp: added_def Let_def split: if_splits)

lemma heap_removed: "removed collection id' st = Inr st' \<Longrightarrow> heap st' = heap st"
  by (auto simp: removed_def Let_def split: if_splits)

lemma heap_changed:
  assumes "changed collection id' flds st = Inr st'"
  shows "case changedDocument (Changed collection id' flds) st of
           None \<Rightarrow> heap st' = heap st
         | Some r \<Rightarrow> \<exists>d. heap st' = (heap st)[r := d]"
  using assms
  by (auto simp: changed_def Let_def collection_of_ensure split: if_splits option.splits)

lemma apply_call_frame:
  assumes "apply_call c st = Inr st'" and "r < length (heap st)"
    and "changedDocument c st \<noteq> Some r"
  shows "heap st' ! r = heap st ! r \<and> length (heap st) \<le> length (heap st')"
proof (cases c)
  case (Added collection id' flds)
  then show ?thesis using assms heap_added [of collection id' flds st st']
    by (auto simp: nth_append)
next
  case (Changed collection id' flds)
  then show ?thesis using assms heap_changed [of collection id' flds st st']
    by (auto split: option.splits if_splits)
next
  case (Removed collection id')
  then show ?thesis using assms heap_removed [of collection id' st st']
    by auto
qed


lemma generateResponse_entries_aux:
  assumes "(c, refs) \<in> set (fold (\<lambda>(collectionName, docs) output.
              AList.update collectionName (values_of docs) output) ds acc)"
  shows "(c, refs) \<in> set acc \<or> (\<exists>inner. (c, inner) \<in> set ds \<and> refs = values_of inner)"
  using assms
proof (induction ds arbitrary: acc)
  case Nil
  then show ?case by simp
next
  case (Cons d ds)
  obtain c' inner' where d: "d = (c', inner')" by (cases d)
  from Cons.prems d
  have "(c, refs) \<in> set (AList.update c' (values_of inner') acc) \<or>
        (\<exists>inner. (c, inner) \<in> set ds \<and> refs = values_of inner)"
    using Cons.IH [of "AList.update c' (values_of inner') acc"] by simp
  then show ?case using set_update_subset [of c' "values_of inner'" acc] d
    by auto
qed

lemma refs_of_generateResponse:
  assumes "valid_refs st" and "r \<in> refs_of (generateResponse st)"
  shows "r < length (heap st)"
proof -
  from assms(2) obtain c refs where in_res: "(c, refs) \<in> set (generateResponse st)"
      and r: "r \<in> set refs"
    by (auto simp: refs_of_def)
  then obtain inner where inner: "(c, inner) \<in> set (documents st)" "refs = values_of inner"
    using generateResponse_entries_aux [of c refs "documents st" "[]"]
    by (auto simp: generateResponse_def)
  then obtain k where "(k, r) \<in> set inner"
    using r by (auto simp: values_of_def)
  then show ?thesis
    using assms(1) inner(1) by (auto simp: valid_refs_def)
qed

lemma contents_cong:
  assumes "\<forall>r \<in> refs_of res. h' ! r = h ! r"
  shows "contents h' res = contents h res"
  using assms by (auto simp: contents_def refs_of_def)




section \<open>The calls as a fold over a map of documents\<close>

lemma map_of_extendObj_aux:
  "map_of (fold (\<lambda>(k, v) d. AList.update k v d) src dst) = map_of dst ++ map_of (rev src)"
proof (induction src arbitrary: dst)
  case Nil
  then show ?case by simp
next
  case (Cons p src)
  obtain k v where p: "p = (k, v)" by (cases p)
  have "map_of (fold (\<lambda>(k, v) d. AList.update k v d) (p # src) dst)
      = map_of (AList.update k v dst) ++ map_of (rev src)"
    using Cons.IH [of "AList.update k v dst"] p by simp
  also have "\<dots> = map_of dst ++ (map_of [(k, v)] ++ map_of (rev src))"
    by (simp add: AList.update_conv')
  finally show ?case using p by simp
qed

lemma map_of_rev_distinct: "distinct (map fst xs) \<Longrightarrow> map_of (rev xs) = map_of xs"
proof (induction xs)
  case Nil
  then show ?case by simp
next
  case (Cons p xs)
  obtain k v where p: "p = (k, v)" by (cases p)
  then have none: "map_of xs k = None"
    using Cons.prems by (simp add: map_of_absent)
  have "map_of (rev (p # xs)) = map_of [(k, v)] ++ map_of xs"
    using Cons p by simp
  also have "\<dots> = map_of (p # xs)"
  proof
    fix x show "(map_of [(k, v)] ++ map_of xs) x = map_of (p # xs) x"
      using none p by (cases "x = k") (simp_all add: map_add_def split: option.splits)
  qed
  finally show ?case .
qed

lemma map_of_extendObj:
  "distinct (map fst src) \<Longrightarrow> map_of (extendObj dst src) = map_of dst ++ map_of src"
  by (simp add: extendObj_def map_of_extendObj_aux map_of_rev_distinct)

lemma omit_delete: "omit obj key = AList.delete key obj"
  by (induction obj) (auto simp: omit_def)

lemma map_of_omit: "map_of (omit obj key) = (map_of obj)(key := None)"
  by (simp add: omit_delete AList.delete_conv')

lemma distinct_omit: "distinct (map fst obj) \<Longrightarrow> distinct (map fst (omit obj key))"
  by (simp add: omit_delete AList.distinct_delete)

lemma map_of_delete_undefined:
  "map_of (fold (\<lambda>(key, value) d. if value = Undefined then AList.delete key d else d) flds d) x
     = (if (x, Undefined) \<in> set flds then None else map_of d x)"
proof (induction flds arbitrary: d)
  case Nil
  then show ?case by simp
next
  case (Cons p flds)
  obtain k v where p: "p = (k, v)" by (cases p)
  show ?case using Cons.IH p
    by (auto simp: AList.delete_conv')
qed

lemma addedDocument_map:
  assumes "distinct (map fst flds)"
  shows "map_of (extendObj [(''_id'', id')] (omit flds ''_id'')) = (map_of flds)(''_id'' \<mapsto> id')"
proof
  fix x
  have "map_of (extendObj [(''_id'', id')] (omit flds ''_id''))
      = map_of [(''_id'', id')] ++ (map_of flds)(''_id'' := None)"
    using assms by (simp add: map_of_extendObj distinct_omit map_of_omit)
  then show "map_of (extendObj [(''_id'', id')] (omit flds ''_id'')) x
      = ((map_of flds)(''_id'' \<mapsto> id')) x"
    by (cases "x = ''_id''") (simp_all add: map_add_def split: option.splits)
qed

lemma changedDocument_map:
  assumes "distinct (map fst flds)" and "(''_id'', Undefined) \<notin> set flds"
  shows "map_of (fold (\<lambda>(key, value) d. if value = Undefined then AList.delete key d else d)
            flds (extendObj old (omit flds ''_id'')))
     = (\<lambda>field. if field = ''_id'' then map_of old field
                else case map_of flds field of
                       None \<Rightarrow> map_of old field
                     | Some value \<Rightarrow> if value = Undefined then None else Some value)"
proof
  fix x
  have mem: "((x, Undefined) \<in> set flds) = (map_of flds x = Some Undefined)"
    using assms(1) by simp
  have id: "map_of flds ''_id'' \<noteq> Some Undefined"
    using assms by simp
  have ext: "map_of (extendObj old (omit flds ''_id''))
      = map_of old ++ (map_of flds)(''_id'' := None)"
    using assms(1) by (simp add: map_of_extendObj distinct_omit map_of_omit)
  have del: "map_of (fold (\<lambda>(key, value) d. if value = Undefined then AList.delete key d else d)
            flds (extendObj old (omit flds ''_id''))) x
      = (if map_of flds x = Some Undefined then None
         else (map_of old ++ (map_of flds)(''_id'' := None)) x)"
    by (simp only: map_of_delete_undefined mem ext)
  show "map_of (fold (\<lambda>(key, value) d. if value = Undefined then AList.delete key d else d)
            flds (extendObj old (omit flds ''_id''))) x
     = (if x = ''_id'' then map_of old x
        else case map_of flds x of
               None \<Rightarrow> map_of old x
             | Some value \<Rightarrow> if value = Undefined then None else Some value)"
  proof (cases "x = ''_id''")
    case True
    then show ?thesis using del id by (simp add: map_add_def)
  next
    case False
    then show ?thesis using del by (cases "map_of flds x") (simp_all add: map_add_def)
  qed
qed

lemma collection_of_added:
  assumes "added collection id' flds st = Inr st'"
  shows "collection_of st' c' =
           (if c' = prop_key collection
            then AList.update (prop_key id') (length (heap st)) (collection_of st c')
            else collection_of st c')"
proof -
  let ?c = "prop_key collection"
  have valid: "isString collection" "validMongoId id'"
    using assms by (auto simp: added_def split: if_splits)
  from assms have docs: "documents st' = AList.update ?c
      (AList.update (prop_key id') (length (heap st)) (collection_of st ?c)) (documents st)"
    by (auto simp: added_eq [OF valid] split: if_splits)
  show ?thesis
    by (cases "c' = ?c") (simp_all add: collection_of_def [of st'] collection_of_def [of st c']
        docs AList.update_conv')
qed

lemma collection_of_changed:
  assumes "changed collection id' flds st = Inr st'"
  shows "collection_of st' c' = collection_of st c'"
proof -
  have valid: "isString collection" "validMongoId id'"
    using assms by (auto simp: changed_def split: if_splits)
  from assms have "st' = ensureCollectionInRes (prop_key collection) st \<or> (\<exists>h. st' = st\<lparr>heap := h\<rparr>)"
    by (auto simp: changed_eq [OF valid] split: if_splits option.splits)
  then show ?thesis
  proof
    assume "st' = ensureCollectionInRes (prop_key collection) st"
    then show ?thesis by (simp add: collection_of_ensure_any)
  next
    assume "\<exists>h. st' = st\<lparr>heap := h\<rparr>"
    then show ?thesis by (auto simp: collection_of_def)
  qed
qed

lemma collection_of_removed:
  assumes "removed collection id' st = Inr st'"
  shows "collection_of st' c' =
           (if c' = prop_key collection
            then AList.delete (prop_key id') (collection_of st c')
            else collection_of st c')"
proof -
  let ?c = "prop_key collection"
  let ?inner = "AList.delete (prop_key id') (collection_of st ?c)"
  have valid: "isString collection" "validMongoId id'"
    using assms by (auto simp: removed_def split: if_splits)
  show ?thesis
  proof (cases "?c \<in> fst ` set (documents st)")
    case True
    then have docs: "documents st' =
        (if ?inner = [] then AList.delete ?c (documents st)
         else AList.update ?c ?inner (documents st))"
      using assms by (auto simp: removed_eq [OF valid] split: if_splits)
    show ?thesis
      by (cases "c' = ?c") (simp_all add: collection_of_def [of st'] collection_of_def [of st c']
          docs AList.update_conv' AList.delete_conv')
  next
    case False
    then have same: "st' = st"
      using assms by (simp add: removed_eq [OF valid])
    have "collection_of st ?c = []"
      using False by (rule collection_of_absent)
    then show ?thesis by (simp add: same)
  qed
qed

lemma lookup_added:
  assumes "added collection id' flds st = Inr st'"
  shows "lookup st' c' k' =
           (if c' = prop_key collection \<and> k' = prop_key id' then Some (length (heap st))
            else lookup st c' k')"
  by (simp add: lookup_def collection_of_added [OF assms] AList.update_conv')

lemma lookup_changed:
  assumes "changed collection id' flds st = Inr st'"
  shows "lookup st' c' k' = lookup st c' k'"
  by (simp add: lookup_def collection_of_changed [OF assms])

lemma lookup_removed:
  assumes "removed collection id' st = Inr st'"
  shows "lookup st' c' k' =
           (if c' = prop_key collection \<and> k' = prop_key id' then None else lookup st c' k')"
  by (simp add: lookup_def collection_of_removed [OF assms] AList.delete_conv')

lemma distinct_documents_ensure:
  "distinct (map fst (documents st)) \<Longrightarrow>
   distinct (map fst (documents (ensureCollectionInRes c st)))"
  by (simp add: ensureCollectionInRes_def AList.distinct_update split: option.splits)

lemma distinct_documents_apply:
  assumes "distinct (map fst (documents st))" and "apply_call call st = Inr st'"
  shows "distinct (map fst (documents st'))"
proof (cases call)
  case (Added collection id' flds)
  then have valid: "isString collection" "validMongoId id'"
    using assms(2) by (auto simp: added_def split: if_splits)
  show ?thesis
    using assms Added by (auto simp: added_eq [OF valid] AList.distinct_update split: if_splits)
next
  case (Changed collection id' flds)
  then have valid: "isString collection" "validMongoId id'"
    using assms(2) by (auto simp: changed_def split: if_splits)
  show ?thesis
    using assms Changed distinct_documents_ensure [OF assms(1), of "prop_key collection"]
    by (auto simp: changed_eq [OF valid] split: if_splits option.splits)
next
  case (Removed collection id')
  then have valid: "isString collection" "validMongoId id'"
    using assms(2) by (auto simp: removed_def split: if_splits)
  show ?thesis
    using assms Removed
    by (auto simp: removed_eq [OF valid] AList.distinct_update AList.distinct_delete
        split: if_splits)
qed

lemma consistent_empty: "consistent empty_collector"
  by (simp add: consistent_def empty_collector_def lookup_def collection_of_def)

lemma consistent_added:
  assumes "consistent st" and "added collection id' flds st = Inr st'"
  shows "consistent st'"
proof -
  have len: "length (heap st') = Suc (length (heap st))"
    using heap_added [OF assms(2)] by auto
  have valid: "\<And>c k r. lookup st c k = Some r \<Longrightarrow> r < length (heap st)"
    using assms(1) by (simp add: consistent_def)
  have inj: "\<And>c k c' k' r. lookup st c k = Some r \<Longrightarrow> lookup st c' k' = Some r \<Longrightarrow>
      c = c' \<and> k = k'"
    using assms(1) unfolding consistent_def by blast
  have "distinct (map fst (documents st'))"
    using assms distinct_documents_apply [of st "Added collection id' flds" st']
    by (simp add: consistent_def)
  moreover have "\<forall>c. distinct (map fst (collection_of st' c))"
    using assms(1)
    by (simp add: consistent_def collection_of_added [OF assms(2)] AList.distinct_update)
  moreover have "\<forall>c k r. lookup st' c k = Some r \<longrightarrow> r < length (heap st')"
    using valid by (auto simp: lookup_added [OF assms(2)] len less_Suc_eq split: if_splits)
  moreover have "\<forall>c k c' k' r. lookup st' c k = Some r \<longrightarrow> lookup st' c' k' = Some r \<longrightarrow>
      c = c' \<and> k = k'"
  proof (intro allI impI)
    fix c k c' k' r
    assume a: "lookup st' c k = Some r" and b: "lookup st' c' k' = Some r"
    show "c = c' \<and> k = k'"
    proof (cases "r = length (heap st)")
      case True
      then show ?thesis using a b valid [of c k r] valid [of c' k' r]
        by (auto simp: lookup_added [OF assms(2)] split: if_splits)
    next
      case False
      then have "lookup st c k = Some r" "lookup st c' k' = Some r"
        using a b by (auto simp: lookup_added [OF assms(2)] split: if_splits)
      then show ?thesis by (rule inj)
    qed
  qed
  ultimately show ?thesis unfolding consistent_def by blast
qed

lemma consistent_changed:
  assumes "consistent st" and "changed collection id' flds st = Inr st'"
  shows "consistent st'"
proof -
  have len: "length (heap st') = length (heap st)"
    using heap_changed [OF assms(2)] by (auto split: option.splits if_splits)
  have "distinct (map fst (documents st'))"
    using assms distinct_documents_apply [of st "Changed collection id' flds" st']
    by (simp add: consistent_def)
  then show ?thesis using assms(1)
    by (simp add: consistent_def lookup_changed [OF assms(2)] collection_of_changed [OF assms(2)]
        len)
qed

lemma consistent_removed:
  assumes "consistent st" and "removed collection id' st = Inr st'"
  shows "consistent st'"
proof -
  have len: "heap st' = heap st"
    using heap_removed [OF assms(2)] .
  have valid: "\<And>c k r. lookup st c k = Some r \<Longrightarrow> r < length (heap st)"
    using assms(1) by (simp add: consistent_def)
  have inj: "\<And>c k c' k' r. lookup st c k = Some r \<Longrightarrow> lookup st c' k' = Some r \<Longrightarrow>
      c = c' \<and> k = k'"
    using assms(1) unfolding consistent_def by blast
  have "distinct (map fst (documents st'))"
    using assms distinct_documents_apply [of st "Removed collection id'" st']
    by (simp add: consistent_def)
  moreover have "\<forall>c. distinct (map fst (collection_of st' c))"
    using assms(1)
    by (simp add: consistent_def collection_of_removed [OF assms(2)] AList.distinct_delete)
  moreover have "\<forall>c k r. lookup st' c k = Some r \<longrightarrow> r < length (heap st')"
    using valid by (auto simp: lookup_removed [OF assms(2)] len split: if_splits)
  moreover have "\<forall>c k c' k' r. lookup st' c k = Some r \<longrightarrow> lookup st' c' k' = Some r \<longrightarrow>
      c = c' \<and> k = k'"
  proof (intro allI impI)
    fix c k c' k' r
    assume "lookup st' c k = Some r" and "lookup st' c' k' = Some r"
    then have "lookup st c k = Some r" "lookup st c' k' = Some r"
      by (auto simp: lookup_removed [OF assms(2)] split: if_splits)
    then show "c = c' \<and> k = k'" by (rule inj)
  qed
  ultimately show ?thesis unfolding consistent_def by blast
qed

lemma consistent_apply:
  "consistent st \<Longrightarrow> apply_call call st = Inr st' \<Longrightarrow> consistent st'"
  by (cases call) (auto intro: consistent_added consistent_changed consistent_removed)

lemma view_added:
  assumes "consistent st" and "added collection id' flds st = Inr st'"
    and "distinct (map fst flds)"
  shows "view st' = spec_call (Added collection id' flds) (view st)"
proof
  fix key :: "string \<times> string"
  obtain c k where key: "key = (c, k)" by (cases key)
  have valid: "\<And>r. lookup st c k = Some r \<Longrightarrow> r < length (heap st)"
    using assms(1) by (simp add: consistent_def)
  have args: "isString collection" "validMongoId id'"
    using assms(2) by (auto simp: added_def split: if_splits)
  from assms(2) have heap': "heap st' = heap st @ [extendObj [(''_id'', id')] (omit flds ''_id'')]"
    by (auto simp: added_eq [OF args] split: if_splits)
  show "view st' key = spec_call (Added collection id' flds) (view st) key"
  proof (cases "c = prop_key collection \<and> k = prop_key id'")
    case True
    then show ?thesis
      by (simp add: key view_def lookup_added [OF assms(2)] heap'
          addedDocument_map [OF assms(3)])
  next
    case False
    then have same: "lookup st' c k = lookup st c k"
      by (auto simp: lookup_added [OF assms(2)])
    show ?thesis
    proof (cases "lookup st c k")
      case None
      then show ?thesis using False same by (auto simp: key view_def)
    next
      case (Some r)
      then have "heap st' ! r = heap st ! r"
        using valid [of r] by (simp add: heap' nth_append)
      then show ?thesis using False same Some by (auto simp: key view_def)
    qed
  qed
qed

lemma view_changed:
  assumes "consistent st" and "changed collection id' flds st = Inr st'"
    and "distinct (map fst flds)" and "(''_id'', Undefined) \<notin> set flds"
  shows "view st' = spec_call (Changed collection id' flds) (view st)"
proof (cases "lookup st (prop_key collection) (prop_key id')")
  case None
  then have "changedDocument (Changed collection id' flds) st = None"
    by (simp add: lookup_def)
  then have "heap st' = heap st"
    using heap_changed [OF assms(2)] by simp
  then have "view st' = view st"
    by (simp add: view_def lookup_changed [OF assms(2)])
  then show ?thesis using None by (simp add: view_def)
next
  case (Some r)
  have valid: "r < length (heap st)"
    using assms(1) Some unfolding consistent_def by blast
  have inj: "\<And>c k. lookup st c k = Some r \<Longrightarrow> c = prop_key collection \<and> k = prop_key id'"
    using assms(1) Some unfolding consistent_def by blast
  have args: "isString collection" "validMongoId id'"
    using assms(2) by (auto simp: changed_def split: if_splits)
  from assms(2) Some have heap': "heap st' = (heap st)[r :=
      fold (\<lambda>(key, value) d. if value = Undefined then AList.delete key d else d)
        flds (extendObj (heap st ! r) (omit flds ''_id''))]"
    by (auto simp: changed_eq [OF args] lookup_def split: if_splits)
  show ?thesis
  proof
    fix key :: "string \<times> string"
    obtain c k where key: "key = (c, k)" by (cases key)
    show "view st' key = spec_call (Changed collection id' flds) (view st) key"
    proof (cases "c = prop_key collection \<and> k = prop_key id'")
      case True
      then show ?thesis using Some valid
        by (simp add: key view_def lookup_changed [OF assms(2)] heap'
            changedDocument_map [OF assms(3,4)])
    next
      case False
      show ?thesis
      proof (cases "lookup st c k")
        case None
        then show ?thesis using False Some
          by (auto simp: key view_def lookup_changed [OF assms(2)])
      next
        case other: (Some r')
        then have "r' \<noteq> r" using inj [of c k] False by auto
        then have "heap st' ! r' = heap st ! r'"
          by (simp add: heap')
        then show ?thesis using False Some other
          by (auto simp: key view_def lookup_changed [OF assms(2)])
      qed
    qed
  qed
qed

lemma view_removed:
  assumes "removed collection id' st = Inr st'"
  shows "view st' = spec_call (Removed collection id') (view st)"
proof
  fix key :: "string \<times> string"
  obtain c k where key: "key = (c, k)" by (cases key)
  show "view st' key = spec_call (Removed collection id') (view st) key"
    by (auto simp: key view_def lookup_removed [OF assms] heap_removed [OF assms])
qed

lemma view_apply:
  assumes "consistent st" and "apply_call call st = Inr st'"
    and "distinct (map fst (payload call))" and "\<not> unsets_id call"
  shows "view st' = spec_call call (view st)"
proof (cases call)
  case (Added collection id' flds)
  then show ?thesis using assms view_added [of st collection id' flds st'] by simp
next
  case (Changed collection id' flds)
  then show ?thesis using assms view_changed [of st collection id' flds st'] by simp
next
  case (Removed collection id')
  then show ?thesis using assms view_removed [of collection id' st st'] by simp
qed

lemma view_run_calls:
  assumes "consistent st" and "run_calls calls st = Inr st'"
    and "\<forall>call \<in> set calls. distinct (map fst (payload call)) \<and> \<not> unsets_id call"
  shows "view st' = fold spec_call calls (view st) \<and> consistent st'"
  using assms
proof (induction calls arbitrary: st)
  case Nil
  then show ?case by simp
next
  case (Cons call calls)
  from Cons.prems(2) obtain st1 where st1: "apply_call call st = Inr st1"
      and rest: "run_calls calls st1 = Inr st'"
    by (auto split: sum.splits)
  have c1: "consistent st1"
    using consistent_apply [OF Cons.prems(1) st1] .
  have v1: "view st1 = spec_call call (view st)"
    using view_apply [OF Cons.prems(1) st1] Cons.prems(3) by simp
  have "view st' = fold spec_call calls (view st1) \<and> consistent st'"
    using Cons.IH [OF c1 rest] Cons.prems(3) by simp
  then show ?case by (simp add: v1)
qed

lemma fold_update_map:
  "fold (\<lambda>(collectionName, docs) output. AList.update collectionName (values_of docs) output) ds acc
     = fold (\<lambda>(k, v) d. AList.update k v d) (map (\<lambda>(c, docs). (c, values_of docs)) ds) acc"
  by (induction ds arbitrary: acc) (simp_all add: case_prod_beta)

lemma map_of_generateResponse:
  assumes "distinct (map fst (documents st))"
  shows "map_of (generateResponse st) c = map_option values_of (map_of (documents st) c)"
proof -
  let ?ds = "map (\<lambda>(c, docs). (c, values_of docs)) (documents st)"
  have keys: "map fst ?ds = map fst (documents st)"
    by (simp add: case_prod_beta)
  have "map_of (generateResponse st) = map_of (rev ?ds)"
    by (simp add: generateResponse_def fold_update_map map_of_extendObj_aux)
  also have "\<dots> = map_of ?ds"
  proof (rule map_of_rev_distinct)
    show "distinct (map fst ?ds)"
      using assms by (simp only: keys)
  qed
  also have "\<dots> = map_option values_of \<circ> map_of (documents st)"
    by (rule map_of_map)
  finally show ?thesis by simp
qed

lemma response_documents_view:
  assumes "consistent st"
  shows "response_documents st c = spec_documents (view st) c"
proof -
  have d1: "distinct (map fst (documents st))"
    and d2: "distinct (map fst (collection_of st c))"
    using assms by (simp_all add: consistent_def)
  have refs: "set (values_of (collection_of st c)) = {r. \<exists>k. lookup st c k = Some r}"
    using d2 by (auto simp: values_of_def lookup_def image_iff) force
  have "response_documents st c = (\<lambda>r. map_of (heap st ! r)) ` set (values_of (collection_of st c))"
    by (cases "map_of (documents st) c")
      (simp_all add: response_documents_def map_of_generateResponse [OF d1] collection_of_def
        values_of_def)
  also have "\<dots> = spec_documents (view st) c"
    by (auto simp: refs spec_documents_def view_def)
  finally show ?thesis .
qed

lemma apply_call_total:
  assumes "valid_call call" and "ordinary_call call"
  shows "\<exists>st'. apply_call call st = Inr st'"
proof (cases call)
  case (Added collection id' flds)
  then have "prop_key id' \<noteq> ''__proto__''"
    using assms(2) inherited_proto by auto
  then show ?thesis
    using Added assms added_total [of collection id' flds st] by simp
next
  case (Changed collection id' flds)
  then show ?thesis
    using assms changed_total [of collection id' flds st] by simp
next
  case (Removed collection id')
  then show ?thesis
    using assms removed_total [of collection id' st] by simp
qed

lemma run_calls_total:
  assumes "\<forall>call \<in> set calls. valid_call call \<and> ordinary_call call"
  shows "\<exists>st'. run_calls calls st = Inr st'"
  using assms
proof (induction calls arbitrary: st)
  case Nil
  then show ?case by simp
next
  case (Cons call calls)
  have "valid_call call" "ordinary_call call" using Cons.prems by simp_all
  then obtain st1 where "apply_call call st = Inr st1"
    using apply_call_total by blast
  moreover obtain st' where "run_calls calls st1 = Inr st'"
    using Cons.IH [of st1] Cons.prems by auto
  ultimately show ?case by simp
qed

text \<open>
  Claim C1, as amended. Take a finite sequence of \<open>added\<close>, \<open>changed\<close> and \<open>removed\<close>
  calls with valid arguments, in which no collection name and no id is the name of a
  property of \<open>Object.prototype\<close>, no payload has an own property \<open>__proto__\<close>, and no
  \<open>changed\<close> payload maps \<open>_id\<close> to \<open>undefined\<close>. Made on a new collector, the
  sequence succeeds, and for each collection the set of documents that the response lists
  is the set of documents that the fold of section 4.1 holds for that collection.
\<close>

theorem run_calls_refines_fold:
  assumes "\<forall>call \<in> set calls. valid_call call \<and> ordinary_call call \<and>
             distinct (map fst (payload call)) \<and> \<not> unsets_id call"
  shows "\<exists>st. run_calls calls empty_collector = Inr st \<and>
           (\<forall>c. response_documents st c = spec_documents (spec_fold calls) c)"
proof -
  obtain st where run: "run_calls calls empty_collector = Inr st"
    using run_calls_total [of calls empty_collector] assms by auto
  have "view empty_collector = (\<lambda>key. None)"
    by (simp add: view_def lookup_def collection_of_def empty_collector_def fun_eq_iff)
  then have "view st = spec_fold calls" and "consistent st"
    using view_run_calls [OF consistent_empty run] assms by (simp_all add: spec_fold_def)
  then have "\<forall>c. response_documents st c = spec_documents (spec_fold calls) c"
    using response_documents_view [of st] by simp
  then show ?thesis using run by blast
qed

text \<open>
  The theorem for a sequence that adds document \<open>1\<close>, unsets one of its fields and sets
  another, and adds and removes document \<open>2\<close>: the response lists the one document
  \<open>{_id: '1', b: 2}\<close>.
\<close>

theorem run_calls_refines_fold_witness:
  "run_calls [Added (Str ''c'') (Str ''1'') [(''a'', Num 1)],
              Changed (Str ''c'') (Str ''1'') [(''a'', Undefined), (''b'', Num 2)],
              Added (Str ''c'') (Str ''2'') [], Removed (Str ''c'') (Str ''2'')] empty_collector
     = Inr \<lparr>documents = [(''c'', [(''1'', 0)])],
            heap = [[(''_id'', Str ''1''), (''b'', Num 2)], [(''_id'', Str ''2'')]]\<rparr> \<and>
   spec_documents (spec_fold
        [Added (Str ''c'') (Str ''1'') [(''a'', Num 1)],
         Changed (Str ''c'') (Str ''1'') [(''a'', Undefined), (''b'', Num 2)],
         Added (Str ''c'') (Str ''2'') [], Removed (Str ''c'') (Str ''2'')]) ''c''
     = {map_of [(''_id'', Str ''1''), (''b'', Num 2)]}"
proof -
  let ?calls = "[Added (Str ''c'') (Str ''1'') [(''a'', Num 1)],
                 Changed (Str ''c'') (Str ''1'') [(''a'', Undefined), (''b'', Num 2)],
                 Added (Str ''c'') (Str ''2'') [], Removed (Str ''c'') (Str ''2'')]"
  let ?st = "\<lparr>documents = [(''c'', [(''1'', 0)])],
              heap = [[(''_id'', Str ''1''), (''b'', Num 2)], [(''_id'', Str ''2'')]]\<rparr>"
  have valid: "\<forall>call \<in> set ?calls. valid_call call \<and> ordinary_call call \<and>
      distinct (map fst (payload call)) \<and> \<not> unsets_id call"
    by (simp add: inherited_def objectPrototypeNames_def)
  have run: "run_calls ?calls empty_collector = Inr ?st"
    by (simp add: added_def changed_def removed_def ensureCollectionInRes_def
        empty_collector_def collection_of_def extendObj_def omit_def isEmpty_def
        inherited_def objectPrototypeNames_def)
  have res: "response_documents ?st ''c'' = {map_of [(''_id'', Str ''1''), (''b'', Num 2)]}"
    by (simp add: response_documents_def generateResponse_def values_of_def)
  have "response_documents ?st ''c'' = spec_documents (spec_fold ?calls) ''c''"
    using run_calls_refines_fold [OF valid] run by auto
  then have "spec_documents (spec_fold ?calls) ''c''
      = {map_of [(''_id'', Str ''1''), (''b'', Num 2)]}"
    using res by simp
  then show ?thesis using run by simp
qed

text \<open>
  Claim C1 as stated fails where a \<open>changed\<close> payload maps \<open>_id\<close> to \<open>undefined\<close>.
  After \<open>added('c', '1', {a: 1})\<close> and \<open>changed('c', '1', {_id: undefined})\<close> the
  response lists the document \<open>{a: 1}\<close>, while the fold, in which \<open>changed\<close> never
  alters \<open>_id\<close>, holds \<open>{_id: '1', a: 1}\<close>.
\<close>

theorem run_calls_refines_fold_counterexample:
  "run_calls [Added (Str ''c'') (Str ''1'') [(''a'', Num 1)],
              Changed (Str ''c'') (Str ''1'') [(''_id'', Undefined)]] empty_collector
     = Inr \<lparr>documents = [(''c'', [(''1'', 0)])], heap = [[(''a'', Num 1)]]\<rparr> \<and>
   response_documents \<lparr>documents = [(''c'', [(''1'', 0)])], heap = [[(''a'', Num 1)]]\<rparr> ''c''
     = {map_of [(''a'', Num 1)]} \<and>
   spec_documents (spec_fold [Added (Str ''c'') (Str ''1'') [(''a'', Num 1)],
                              Changed (Str ''c'') (Str ''1'') [(''_id'', Undefined)]]) ''c''
     = {map_of [(''_id'', Str ''1''), (''a'', Num 1)]} \<and>
   map_of [(''a'', Num 1)] ''_id'' = None \<and>
   map_of [(''_id'', Str ''1''), (''a'', Num 1)] ''_id'' = Some (Str ''1'')"
proof -
  let ?calls = "[Added (Str ''c'') (Str ''1'') [(''a'', Num 1)],
                 Changed (Str ''c'') (Str ''1'') [(''_id'', Undefined)]]"
  have run: "run_calls ?calls empty_collector
      = Inr \<lparr>documents = [(''c'', [(''1'', 0)])], heap = [[(''a'', Num 1)]]\<rparr>"
    by (simp add: added_def changed_def ensureCollectionInRes_def empty_collector_def
        collection_of_def extendObj_def omit_def inherited_def objectPrototypeNames_def)
  have res: "response_documents
      \<lparr>documents = [(''c'', [(''1'', 0)])], heap = [[(''a'', Num 1)]]\<rparr> ''c''
      = {map_of [(''a'', Num 1)]}"
    by (simp add: response_documents_def generateResponse_def values_of_def)
  have doc: "(\<lambda>field. if field = ''_id'' then Some (Str ''1'')
                 else if field = ''a'' then Some (Num 1) else None)
      = map_of [(''_id'', Str ''1''), (''a'', Num 1)]"
    by (rule ext) simp
  have "spec_fold ?calls = (\<lambda>key. None)((''c'', ''1'') \<mapsto> map_of [(''_id'', Str ''1''), (''a'', Num 1)])"
    by (rule ext) (simp add: spec_fold_def doc [symmetric] fun_eq_iff)
  then have "spec_documents (spec_fold ?calls) ''c''
      = {map_of [(''_id'', Str ''1''), (''a'', Num 1)]}"
    by (auto simp: spec_documents_def)
  then show ?thesis using run res by simp
qed

section \<open>The \<open>_id\<close> field\<close>

lemma extendObj_keeps_id:
  "map_of (extendObj dst (omit src ''_id'')) ''_id'' = map_of dst ''_id''"
proof -
  have "''_id'' \<notin> fst ` set (rev (omit src ''_id''))"
    by (auto simp: omit_def)
  then have "map_of (rev (omit src ''_id'')) ''_id'' = None"
    using map_of_absent [of "rev (omit src ''_id'')" "''_id''"] by blast
  then show ?thesis
    by (simp add: extendObj_def map_of_extendObj_aux map_add_def)
qed

text \<open>\<open>added\<close> stores a document whose \<open>_id\<close> is the id of the call, whatever the payload.\<close>

lemma added_stores_id:
  assumes "added collection id' flds st = Inr st'"
  shows "\<exists>r. lookup st' (prop_key collection) (prop_key id') = Some r \<and>
           r < length (heap st') \<and> map_of (heap st' ! r) ''_id'' = Some id'"
proof -
  have valid: "isString collection" "validMongoId id'"
    using assms by (auto simp: added_def split: if_splits)
  from assms have "heap st' = heap st @ [extendObj [(''_id'', id')] (omit flds ''_id'')]"
    by (auto simp: added_eq [OF valid] split: if_splits)
  then show ?thesis
    by (simp add: lookup_added [OF assms] extendObj_keeps_id)
qed

text \<open>
  \<open>changed\<close> leaves the \<open>_id\<close> of every document as it is, unless its payload maps
  \<open>_id\<close> to \<open>undefined\<close>.
\<close>

lemma changed_keeps_id:
  assumes "changed collection id' flds st = Inr st'" and "(''_id'', Undefined) \<notin> set flds"
    and "r < length (heap st)"
  shows "map_of (heap st' ! r) ''_id'' = map_of (heap st ! r) ''_id''"
proof (cases "lookup st (prop_key collection) (prop_key id')")
  case None
  then have "changedDocument (Changed collection id' flds) st = None"
    by (simp add: lookup_def)
  then show ?thesis using heap_changed [OF assms(1)] by simp
next
  case (Some r0)
  have valid: "isString collection" "validMongoId id'"
    using assms(1) by (auto simp: changed_def split: if_splits)
  from assms(1) Some have heap': "heap st' = (heap st)[r0 :=
      fold (\<lambda>(key, value) d. if value = Undefined then AList.delete key d else d)
        flds (extendObj (heap st ! r0) (omit flds ''_id''))]"
    by (auto simp: changed_eq [OF valid] lookup_def split: if_splits)
  show ?thesis
  proof (cases "r = r0")
    case True
    then show ?thesis using assms(2,3)
      by (simp add: heap' map_of_delete_undefined extendObj_keeps_id)
  next
    case False
    then show ?thesis by (simp add: heap')
  qed
qed

text \<open>
  Claim C4: every stored document carries \<open>_id\<close> equal to the id it is stored under;
  \<open>added\<close> stores the id of the call whatever the payload holds, and \<open>changed\<close> never
  alters or deletes \<open>_id\<close>, also for a payload that maps \<open>_id\<close> to \<open>undefined\<close>.
  The code does the first two (the lemmas above) and breaks the last: \<open>changed\<close> runs its
  deletion loop over \<open>fields\<close>, not over \<open>fieldsNoId\<close>, although the comment above the
  loop says "except \<open>_id\<close>". After \<open>added('c', '1', {a: 1})\<close> and
  \<open>changed('c', '1', {_id: undefined})\<close> the document stored at \<open>1\<close> is \<open>{a: 1}\<close>.
\<close>

theorem changed_deletes_id:
  "added (Str ''c'') (Str ''1'') [(''a'', Num 1)] empty_collector
     = Inr \<lparr>documents = [(''c'', [(''1'', 0)])],
            heap = [[(''_id'', Str ''1''), (''a'', Num 1)]]\<rparr> \<and>
   changed (Str ''c'') (Str ''1'') [(''_id'', Undefined)]
       \<lparr>documents = [(''c'', [(''1'', 0)])], heap = [[(''_id'', Str ''1''), (''a'', Num 1)]]\<rparr>
     = Inr \<lparr>documents = [(''c'', [(''1'', 0)])], heap = [[(''a'', Num 1)]]\<rparr>"
  by (simp add: added_def changed_def ensureCollectionInRes_def empty_collector_def
      collection_of_def extendObj_def omit_def inherited_def objectPrototypeNames_def)

section \<open>Validation of the handler's result\<close>

lemma areCursors_fold:
  "fold (\<lambda>cur valid. valid \<and> isCursor cur) res b = (b \<and> (\<forall>r \<in> set res. isCursor r))"
  by (induction res arbitrary: b) auto

lemma all_dataSources: "(\<forall>r \<in> set res. isDataSource r) \<Longrightarrow> \<exists>cs. res = map Cur cs"
proof (induction res)
  case Nil
  then show ?case by simp
next
  case (Cons r res)
  then obtain cs where "res = map Cur cs" by auto
  moreover obtain c where "r = Cur c"
    using Cons.prems by (cases r) auto
  ultimately have "r # res = map Cur (c # cs)" by simp
  then show ?case by (rule exI)
qed

text \<open>
  The loop reports a duplicate as soon as a name other than \<open>__proto__\<close> occurs twice,
  or a name occurs that is already an own property of \<open>collectionNames\<close>.
\<close>

lemma findDuplicates_duplicate:
  assumes "\<not> (distinct (filter (\<lambda>n. n \<noteq> ''__proto__'') (map getCollectionName cs)) \<and>
              set names \<inter> set (map getCollectionName cs) = {})"
  shows "\<exists>n. findDuplicates (map Cur cs) names acc = Inl (DuplicatePublish n) \<and>
             n \<in> set (map getCollectionName cs)"
  using assms
proof (induction cs arbitrary: names acc)
  case Nil
  then show ?case by simp
next
  case (Cons c cs)
  let ?names = "if getCollectionName c = ''__proto__'' then names
                else getCollectionName c # names"
  show ?case
  proof (cases "getCollectionName c \<in> set names")
    case True
    then show ?thesis by simp
  next
    case False
    with Cons.prems
    have "\<not> (distinct (filter (\<lambda>n. n \<noteq> ''__proto__'') (map getCollectionName cs)) \<and>
              set ?names \<inter> set (map getCollectionName cs) = {})"
      by (auto split: if_splits)
    from Cons.IH [OF this, of "acc @ [Cur c]"] False show ?thesis
      by auto
  qed
qed

lemma repeated_not_distinct:
  assumes "i < j" and "j < length xs" and "xs ! i = xs ! j" and "P (xs ! j)"
  shows "\<not> distinct (filter P xs)"
proof -
  have split: "xs = take j xs @ xs ! j # drop (Suc j) xs"
    using assms(2) by (rule id_take_nth_drop)
  have "xs ! i \<in> set (take j xs)"
    using assms(1,2) by (auto simp: in_set_conv_nth intro!: exI [of _ i])
  then have "xs ! j \<in> set (filter P (take j xs))"
    using assms(3,4) by simp
  moreover have "filter P xs = filter P (take j xs) @ xs ! j # filter P (drop (Suc j) xs)"
    using assms(4) split
    by (metis filter.simps(2) filter_append)
  ultimately show ?thesis
    by (metis distinct_append disjoint_iff list.set_intros(1))
qed

text \<open>
  For every collection name other than \<open>__proto__\<close> the check finds the duplicate:
  an array of cursors of which two have that name is refused with the "multiple cursors"
  error for a collection name of the array, whatever the cursors would publish, and the
  collector is left as it was: no cursor's \<open>_publishCursor\<close> has been called.
\<close>

lemma duplicate_cursors_rejected:
  assumes "\<forall>r \<in> set res. isDataSource r"
    and "i < j" and "j < length res"
    and "res ! i = Cur a" and "res ! j = Cur b"
    and "getCollectionName a = getCollectionName b"
    and "getCollectionName b \<noteq> ''__proto__''"
  shows "\<exists>n. publishHandlerResult (Arr res) s = (s, Some (DuplicatePublish n)) \<and>
             (\<exists>c. Cur c \<in> set res \<and> getCollectionName c = n)"
proof -
  obtain cs where cs: "res = map Cur cs"
    using all_dataSources [OF assms(1)] by blast
  let ?names = "map getCollectionName cs"
  have ij: "i < length cs" "j < length cs" "cs ! i = a" "cs ! j = b"
    using assms(2-5) cs by auto
  then have "?names ! i = ?names ! j" "?names ! j \<noteq> ''__proto__''"
    using assms(6,7) by simp_all
  moreover have "j < length ?names"
    using ij(2) by simp
  ultimately have "\<not> distinct (filter (\<lambda>n. n \<noteq> ''__proto__'') ?names)"
    using repeated_not_distinct [OF assms(2), of ?names "\<lambda>n. n \<noteq> ''__proto__''"] by blast
  then obtain n where n: "findDuplicates (map Cur cs) [] [] = Inl (DuplicatePublish n)"
      "n \<in> set ?names"
    using findDuplicates_duplicate [of cs "[]" "[]"] by auto
  have "\<forall>r \<in> set res. isCursor r"
    using cs by auto
  then have "publishHandlerResult (Arr res) s = (s, Some (DuplicatePublish n))"
    using n(1) by (simp add: publishHandlerResult_def cursorsOf_def cs areCursors_fold)
  moreover have "\<exists>c. Cur c \<in> set res \<and> getCollectionName c = n"
    using n(2) cs by auto
  ultimately show ?thesis by blast
qed

text \<open>
  Claim C7: a handler that returns an array with two cursors of the same collection name
  is refused with the "multiple cursors" error before any cursor is published. The code
  looks for the name among the own properties of \<open>collectionNames\<close> and means to record
  every name it has seen there, but \<open>collectionNames['__proto__'] = true\<close> records
  nothing. For two cursors of the collection \<open>__proto__\<close>, run in the state \<open>collect\<close>
  sets up, nothing is thrown: \<open>_publishCursor\<close> is called on both, \<open>ready\<close> is called
  and the promise is resolved.
\<close>

theorem duplicate_proto_cursors_published:
  "publishHandlerResult
      (Arr [Cur (Cursor ''__proto__'' []), Cur (Cursor ''__proto__'' [])])
      ((new_session None)\<lparr>promise := Some Pending, readyListener := True\<rparr>)
     = ((new_session None)\<lparr>promise := Some (Fulfilled []), readyListener := False,
                            started := [''__proto__'', ''__proto__'']\<rparr>, None)"
  by (simp add: publishHandlerResult_def cursorsOf_def ensureCollectionInRes_def new_session_def
      empty_collector_def ready_def completeCollecting_def resolve_def stop_def
      generateResponse_def Let_def)

lemma plain_not_cursor:
  assumes "\<not> isCursor res" and "\<not> isArray res"
  shows "\<exists>v. res = Plain v"
  using assms by (cases res) simp_all

text \<open>
  Claim C8, as amended. \<open>_isCursor\<close> asks for a truthy property \<open>_publishCursor\<close>, not
  for the capability to stream. Take a result that is neither an array nor a value with a
  truthy \<open>_publishCursor\<close>. When it is truthy, \<open>_publishHandlerResult\<close> throws the "can
  only return a Cursor or an array of Cursors" error; when it is falsy (\<open>undefined\<close> among
  others) nothing is thrown. In both cases the collector is left as it was: no cursor has
  been published and \<open>ready\<close> has not been called.
\<close>

theorem plain_result:
  assumes "\<not> isCursor res" and "\<not> isArray res"
  shows "\<exists>v. res = Plain v \<and>
           publishHandlerResult res s =
             (s, if truthy v
                 then Some (InvalidPublishResult
                        ''Publish function can only return a Cursor or an array of Cursors'')
                 else None)"
proof -
  obtain v where v: "res = Plain v"
    using plain_not_cursor [OF assms] by blast
  then have "publishHandlerResult res s =
      (s, if truthy v
          then Some (InvalidPublishResult
                 ''Publish function can only return a Cursor or an array of Cursors'')
          else None)"
    using assms(1) by (simp add: publishHandlerResult_def cursorsOf_def)
  then show ?thesis using v by blast
qed

theorem plain_result_witness:
  "\<not> isCursor (Plain (Obj [(''_id'', Str ''1'')])) \<and> \<not> isArray (Plain (Obj [(''_id'', Str ''1'')])) \<and>
   publishHandlerResult (Plain (Obj [(''_id'', Str ''1'')])) (new_session None) =
     (new_session None,
      Some (InvalidPublishResult
              ''Publish function can only return a Cursor or an array of Cursors'')) \<and>
   \<not> isCursor (Plain Undefined) \<and> \<not> isArray (Plain Undefined) \<and>
   publishHandlerResult (Plain Undefined) (new_session None) = (new_session None, None)"
  using plain_result [of "Plain (Obj [(''_id'', Str ''1'')])" "new_session None"]
    plain_result [of "Plain Undefined" "new_session None"]
  by simp

text \<open>
  Claim C8 as stated fails for the object \<open>{_publishCursor: 1}\<close>: it is truthy, it is
  no array and it cannot stream, but \<open>_isCursor\<close> accepts it. The code then calls
  \<open>cur._getCollectionName()\<close> on it, and what is thrown is a TypeError, not the "can only
  return a Cursor or an array of Cursors" error.
\<close>

theorem plain_result_counterexample:
  "truthyResult (Plain (Obj [(''_publishCursor'', Num 1)])) \<and>
   \<not> isDataSource (Plain (Obj [(''_publishCursor'', Num 1)])) \<and>
   \<not> isArray (Plain (Obj [(''_publishCursor'', Num 1)])) \<and>
   publishHandlerResult (Plain (Obj [(''_publishCursor'', Num 1)])) (new_session None)
     = (new_session None, Some (Thrown ''TypeError''))"
  by (simp add: publishHandlerResult_def cursorsOf_def)

section \<open>The delayed response\<close>

lemma store_stop [simp]: "store (stop s) = store s"
  by (simp add: stop_def)

lemma store_resolve [simp]: "store (resolve collections s) = store s"
  by (simp add: resolve_def)

lemma store_completeCollecting [simp]:
  "store (fst (completeCollecting collections s)) = store s"
  by (simp add: completeCollecting_def split: option.splits callback.splits)

lemma store_ready [simp]: "store (fst (ready s)) = store s"
  by (simp add: ready_def Let_def)

lemma store_timerFires [simp]: "store (timerFires s) = store s"
  by (simp add: timerFires_def Let_def)

lemma store_step: "store (step ev s) = fold mutate (calls_of [ev]) (store s)"
proof (cases ev)
  case (Does a)
  then show ?thesis
    by (cases a) (simp_all add: mutate_def onStop_def split: sum.splits)
next
  case TimerFires
  then show ?thesis by simp
qed

lemma calls_of_Cons: "calls_of (ev # evs) = calls_of [ev] @ calls_of evs"
proof (cases ev)
  case (Does a)
  then show ?thesis by (cases a) simp_all
next
  case TimerFires
  then show ?thesis by simp
qed

lemma calls_of_append: "calls_of (xs @ ys) = calls_of xs @ calls_of ys"
proof (induction xs)
  case Nil
  then show ?case by simp
next
  case (Cons ev xs)
  then show ?case
    using calls_of_Cons [of ev "xs @ ys"] calls_of_Cons [of ev xs] by simp
qed

lemma steps_Cons [simp]: "steps (ev # evs) s = steps evs (step ev s)"
  by (simp add: steps_def)

lemma steps_Nil [simp]: "steps [] s = s"
  by (simp add: steps_def)

lemma steps_append: "steps (xs @ ys) s = steps ys (steps xs s)"
  by (simp add: steps_def)

lemma store_steps: "store (steps evs s) = fold mutate (calls_of evs) (store s)"
proof (induction evs arbitrary: s)
  case Nil
  then show ?case by simp
next
  case (Cons ev evs)
  have "store (steps (ev # evs) s) = fold mutate (calls_of evs) (store (step ev s))"
    using Cons.IH by simp
  also have "\<dots> = fold mutate (calls_of [ev] @ calls_of evs) (store s)"
    by (simp add: store_step)
  finally show ?case
    using calls_of_Cons [of ev evs] by simp
qed

text \<open>No event changes the configured delay or the callback.\<close>

lemma config_completeCollecting [simp]:
  "delayInMs (fst (completeCollecting collections s)) = delayInMs s"
  "callback (fst (completeCollecting collections s)) = callback s"
  by (simp_all add: completeCollecting_def stop_def resolve_def
      split: option.splits callback.splits)

lemma config_step [simp]:
  "delayInMs (step ev s) = delayInMs s" "callback (step ev s) = callback s"
proof -
  show "delayInMs (step ev s) = delayInMs s"
  proof (cases ev)
    case (Does a)
    then show ?thesis
      by (cases a) (simp_all add: ready_def stop_def onStop_def Let_def split: sum.splits)
  next
    case TimerFires
    then show ?thesis by (simp add: timerFires_def Let_def)
  qed
  show "callback (step ev s) = callback s"
  proof (cases ev)
    case (Does a)
    then show ?thesis
      by (cases a) (simp_all add: ready_def stop_def onStop_def Let_def split: sum.splits)
  next
    case TimerFires
    then show ?thesis by (simp add: timerFires_def Let_def)
  qed
qed

lemma config_steps [simp]:
  "delayInMs (steps evs s) = delayInMs s" "callback (steps evs s) = callback s"
  by (induction evs arbitrary: s) simp_all

text \<open>Before \<open>ready\<close>: the listener stays registered, no timer is set, the promise is pending.\<close>

lemma step_listening:
  assumes "readyListener s" and "\<not> timerPending s" and "promise s = Some Pending"
    and "ev \<noteq> Does Ready"
  shows "readyListener (step ev s) \<and> \<not> timerPending (step ev s) \<and>
         promise (step ev s) = Some Pending"
proof (cases ev)
  case (Does a)
  then show ?thesis using assms
    by (cases a) (simp_all add: stop_def onStop_def split: sum.splits)
next
  case TimerFires
  then show ?thesis using assms by (simp add: timerFires_def)
qed

lemma steps_listening:
  assumes "readyListener s" and "\<not> timerPending s" and "promise s = Some Pending"
    and "Does Ready \<notin> set evs"
  shows "readyListener (steps evs s) \<and> \<not> timerPending (steps evs s) \<and>
         promise (steps evs s) = Some Pending"
  using assms
proof (induction evs arbitrary: s)
  case Nil
  then show ?case by simp
next
  case (Cons ev evs)
  have "ev \<noteq> Does Ready" "Does Ready \<notin> set evs"
    using Cons.prems(4) by auto
  then show ?case
    using step_listening [OF Cons.prems(1-3), of ev] Cons.IH [of "step ev s"] by simp
qed

text \<open>Between \<open>ready\<close> and the timeout: the timer stays set and the promise pending.\<close>

lemma step_waiting:
  assumes "\<not> readyListener s" and "timerPending s" and "promise s = Some Pending"
    and "ev \<noteq> TimerFires"
  shows "\<not> readyListener (step ev s) \<and> timerPending (step ev s) \<and>
         promise (step ev s) = Some Pending"
proof (cases ev)
  case (Does a)
  then show ?thesis using assms
    by (cases a) (simp_all add: ready_def stop_def onStop_def split: sum.splits)
next
  case TimerFires
  then show ?thesis using assms by simp
qed

lemma steps_waiting:
  assumes "\<not> readyListener s" and "timerPending s" and "promise s = Some Pending"
    and "TimerFires \<notin> set evs"
  shows "\<not> readyListener (steps evs s) \<and> timerPending (steps evs s) \<and>
         promise (steps evs s) = Some Pending"
  using assms
proof (induction evs arbitrary: s)
  case Nil
  then show ?case by simp
next
  case (Cons ev evs)
  have "ev \<noteq> TimerFires" "TimerFires \<notin> set evs"
    using Cons.prems(4) by auto
  then show ?case
    using step_waiting [OF Cons.prems(1-3), of ev] Cons.IH [of "step ev s"] by simp
qed

text \<open>The timeout resolves a pending promise, unless the callback throws.\<close>

lemma timerFires_resolves:
  assumes "timerPending s" and "promise s = Some Pending" and "callbackReturns (callback s)"
  shows "\<not> timerPending (timerFires s) \<and>
         readyListener (timerFires s) = readyListener s \<and>
         promise (timerFires s) = Some (Fulfilled (generateResponse (store s)))"
proof (cases "callback s")
  case None
  then show ?thesis using assms
    by (simp add: timerFires_def completeCollecting_def resolve_def stop_def Let_def)
next
  case (Some cb)
  then have "cb = Returns"
    using assms(3) by (cases cb) simp_all
  then show ?thesis using assms Some
    by (simp add: timerFires_def completeCollecting_def resolve_def stop_def Let_def)
qed

text \<open>After the timeout: no listener and no timer are left, and the promise keeps its value.\<close>

lemma step_settled:
  assumes "\<not> readyListener s" and "\<not> timerPending s"
  shows "\<not> readyListener (step ev s) \<and> \<not> timerPending (step ev s) \<and>
         promise (step ev s) = promise s"
proof (cases ev)
  case (Does a)
  then show ?thesis using assms
    by (cases a) (simp_all add: ready_def stop_def onStop_def split: sum.splits)
next
  case TimerFires
  then show ?thesis using assms by (simp add: timerFires_def)
qed

lemma steps_settled:
  assumes "\<not> readyListener s" and "\<not> timerPending s"
  shows "promise (steps evs s) = promise s"
  using assms
proof (induction evs arbitrary: s)
  case Nil
  then show ?case by simp
next
  case (Cons ev evs)
  then show ?case
    using step_settled [OF Cons.prems, of ev] Cons.IH [of "step ev s"] by simp
qed

text \<open>The mutation calls keep every stored reference inside the store.\<close>

lemma valid_refs_subset:
  assumes "valid_refs st" and "length (heap st) \<le> n"
    and "set ds \<subseteq> A \<union> set (documents st)"
    and "\<forall>(c, inner) \<in> A. \<forall>(k, r) \<in> set inner. r < n"
  shows "\<forall>(c, inner) \<in> set ds. \<forall>(k, r) \<in> set inner. r < n"
proof (clarify)
  fix c inner k r
  assume "(c, inner) \<in> set ds" and kr: "(k, r) \<in> set inner"
  then have "(c, inner) \<in> A \<or> (c, inner) \<in> set (documents st)"
    using assms(3) by blast
  then show "r < n"
  proof
    assume "(c, inner) \<in> A"
    then show ?thesis using assms(4) kr by blast
  next
    assume "(c, inner) \<in> set (documents st)"
    then have "r < length (heap st)"
      using assms(1) kr by (auto simp: valid_refs_def)
    then show ?thesis using assms(2) by simp
  qed
qed

lemma valid_refs_collection:
  assumes "valid_refs st" and "(k, r) \<in> set (collection_of st c)"
  shows "r < length (heap st)"
proof (cases "map_of (documents st) c")
  case None
  then show ?thesis using assms(2) by (simp add: collection_of_def)
next
  case (Some inner)
  then have "(c, inner) \<in> set (documents st)"
    by (rule map_of_SomeD)
  moreover have "(k, r) \<in> set inner"
    using assms(2) Some by (simp add: collection_of_def)
  ultimately show ?thesis
    using assms(1) by (auto simp: valid_refs_def)
qed

lemma valid_refs_added:
  assumes "valid_refs st" and "added collection id' flds st = Inr st'"
  shows "valid_refs st'"
proof -
  let ?c = "prop_key collection"
  let ?inner = "AList.update (prop_key id') (length (heap st)) (collection_of st ?c)"
  have valid: "isString collection" "validMongoId id'"
    using assms(2) by (auto simp: added_def split: if_splits)
  have docs: "documents st' = AList.update ?c ?inner (documents st)"
    and len: "length (heap st') = Suc (length (heap st))"
    using assms(2) by (auto simp: added_eq [OF valid] split: if_splits)
  have sub: "set (documents st') \<subseteq> {(?c, ?inner)} \<union> set (documents st)"
    using set_update_subset [of ?c ?inner "documents st"] by (simp add: docs)
  have new: "\<forall>(c, inner) \<in> {(?c, ?inner)}. \<forall>(k, r) \<in> set inner. r < length (heap st')"
  proof (clarify)
    fix k r assume "(k, r) \<in> set ?inner"
    then have "(k, r) = (prop_key id', length (heap st)) \<or> (k, r) \<in> set (collection_of st ?c)"
      using set_update_subset [of "prop_key id'" "length (heap st)" "collection_of st ?c"]
      by auto
    then show "r < length (heap st')"
      using valid_refs_collection [OF assms(1), of k r ?c] len by auto
  qed
  have "\<forall>(c, inner) \<in> set (documents st'). \<forall>(k, r) \<in> set inner. r < length (heap st')"
    by (rule valid_refs_subset [OF assms(1) _ sub new]) (simp add: len)
  then show ?thesis by (simp add: valid_refs_def)
qed

lemma valid_refs_changed:
  assumes "valid_refs st" and "changed collection id' flds st = Inr st'"
  shows "valid_refs st'"
proof -
  let ?c = "prop_key collection"
  have valid: "isString collection" "validMongoId id'"
    using assms(2) by (auto simp: changed_def split: if_splits)
  have "st' = ensureCollectionInRes ?c st \<or> (\<exists>r d. st' = st\<lparr>heap := (heap st)[r := d]\<rparr>)"
    using assms(2) by (auto simp: changed_eq [OF valid] split: if_splits option.splits)
  then have len: "length (heap st') = length (heap st)"
    and sub: "set (documents st') \<subseteq> {(?c, [])} \<union> set (documents st)"
    by (auto simp: documents_ensure split: if_splits)
  have "\<forall>(c, inner) \<in> set (documents st'). \<forall>(k, r) \<in> set inner. r < length (heap st')"
    by (rule valid_refs_subset [OF assms(1) _ sub]) (simp_all add: len)
  then show ?thesis by (simp add: valid_refs_def)
qed

lemma valid_refs_removed:
  assumes "valid_refs st" and "removed collection id' st = Inr st'"
  shows "valid_refs st'"
proof -
  let ?c = "prop_key collection"
  let ?inner = "AList.delete (prop_key id') (collection_of st ?c)"
  have valid: "isString collection" "validMongoId id'"
    using assms(2) by (auto simp: removed_def split: if_splits)
  have len: "heap st' = heap st"
    using assms(2) by (auto simp: removed_eq [OF valid] split: if_splits)
  have sub: "set (documents st') \<subseteq> {(?c, ?inner)} \<union> set (documents st)"
    using assms(2) set_update_subset [of ?c ?inner "documents st"]
    by (auto simp: removed_eq [OF valid] set_delete split: if_splits)
  have new: "\<forall>(c, inner) \<in> {(?c, ?inner)}. \<forall>(k, r) \<in> set inner. r < length (heap st')"
    using valid_refs_collection [OF assms(1), of _ _ ?c]
    by (auto simp: len set_delete)
  have "\<forall>(c, inner) \<in> set (documents st'). \<forall>(k, r) \<in> set inner. r < length (heap st')"
    by (rule valid_refs_subset [OF assms(1) _ sub new]) (simp add: len)
  then show ?thesis by (simp add: valid_refs_def)
qed

lemma valid_refs_apply:
  assumes "valid_refs st" and "apply_call c st = Inr st'"
  shows "valid_refs st'"
proof (cases c)
  case (Added collection id' flds)
  then show ?thesis
    using assms valid_refs_added [of st collection id' flds st'] by simp
next
  case (Changed collection id' flds)
  then show ?thesis
    using assms valid_refs_changed [of st collection id' flds st'] by simp
next
  case (Removed collection id')
  then show ?thesis
    using assms valid_refs_removed [of st collection id' st'] by simp
qed

lemma valid_refs_mutate:
  assumes "valid_refs st"
  shows "valid_refs (mutate c st)"
proof (cases "apply_call c st")
  case (Inl e)
  then show ?thesis using assms by (simp add: mutate_def)
next
  case (Inr st')
  then show ?thesis
    using valid_refs_apply [OF assms Inr] by (simp add: mutate_def)
qed

lemma valid_refs_fold_mutate: "valid_refs st \<Longrightarrow> valid_refs (fold mutate calls st)"
  by (induction calls arbitrary: st) (simp_all add: valid_refs_mutate)

text \<open>A document that no \<open>changed\<close> call finds stays as it is.\<close>

lemma mutate_frame:
  assumes "r < length (heap st)" and "changedDocument c st \<noteq> Some r"
  shows "heap (mutate c st) ! r = heap st ! r \<and> length (heap st) \<le> length (heap (mutate c st))"
proof (cases "apply_call c st")
  case (Inl e)
  then show ?thesis by (simp add: mutate_def)
next
  case (Inr st')
  then show ?thesis
    using apply_call_frame [OF Inr assms] by (simp add: mutate_def)
qed

lemma fold_mutate_frame:
  assumes "r < length (heap st)" and "r \<notin> set (changedBy calls st)"
  shows "heap (fold mutate calls st) ! r = heap st ! r \<and>
         length (heap st) \<le> length (heap (fold mutate calls st))"
  using assms
proof (induction calls arbitrary: st)
  case Nil
  then show ?case by simp
next
  case (Cons c calls)
  have "changedDocument c st \<noteq> Some r"
    using Cons.prems(2) by (auto split: option.splits)
  then have one: "heap (mutate c st) ! r = heap st ! r"
      "length (heap st) \<le> length (heap (mutate c st))"
    using mutate_frame [OF Cons.prems(1)] by simp_all
  have "r \<notin> set (changedBy calls (mutate c st))"
    using Cons.prems(2) by simp
  moreover have "r < length (heap (mutate c st))"
    using one(2) Cons.prems(1) by simp
  ultimately have "heap (fold mutate calls (mutate c st)) ! r = heap (mutate c st) ! r \<and>
      length (heap (mutate c st)) \<le> length (heap (fold mutate calls (mutate c st)))"
    using Cons.IH by simp
  then show ?case using one by simp
qed

text \<open>
  Claim C9, as amended. Let a collector with a delay other than 0 have its ready listener
  registered by \<open>collect\<close>, with no timer set, the promise pending, valid references and
  a callback, if any, that returns. Let \<open>ready\<close> be called after the events \<open>before\<close>,
  the timer fire after the further events \<open>between\<close>, and the events \<open>after\<close> follow; let
  every mutation call among them be an ordinary one. Then the promise is still pending when
  the timer is about to fire; when it fires, the documents are the result of every mutation
  call of \<open>before\<close> and \<open>between\<close>, in order; and the promise is fulfilled with a
  response that lists exactly these documents, whatever \<open>after\<close> holds. The response
  lists the stored document objects: it shows after the events \<open>after\<close> what it showed
  when the timer fired, provided that no \<open>changed\<close> call of \<open>after\<close> finds a document
  that the response lists.
\<close>

theorem delayed_response:
  assumes "delayInMs s = Some d" and "d \<noteq> 0"
    and "readyListener s" and "\<not> timerPending s" and "promise s = Some Pending"
    and "callbackReturns (callback s)"
    and "Does Ready \<notin> set before" and "TimerFires \<notin> set between"
    and "\<forall>c \<in> set (calls_of (before @ between @ after)). ordinary_call c"
    and "valid_refs (store s)"
    and "set (changedBy (calls_of after) (fold mutate (calls_of (before @ between)) (store s))) \<inter>
         refs_of (generateResponse (fold mutate (calls_of (before @ between)) (store s))) = {}"
  shows "promise (steps (before @ Does Ready # between) s) = Some Pending \<and>
         store (steps (before @ Does Ready # between @ [TimerFires]) s)
           = fold mutate (calls_of (before @ between)) (store s) \<and>
         (\<exists>res. promise (steps (before @ Does Ready # between @ TimerFires # after) s)
                  = Some (Fulfilled res) \<and>
                same_documents res
                  (generateResponse (fold mutate (calls_of (before @ between)) (store s))) \<and>
                contents
                  (heap (store (steps (before @ Does Ready # between @ TimerFires # after) s)))
                  res
                  = contents (heap (fold mutate (calls_of (before @ between)) (store s))) res)"
proof -
  let ?s1 = "steps before s"
  let ?s2 = "step (Does Ready) ?s1"
  let ?s3 = "steps between ?s2"
  let ?s4 = "step TimerFires ?s3"
  let ?X = "fold mutate (calls_of (before @ between)) (store s)"
  have s1: "readyListener ?s1" "\<not> timerPending ?s1" "promise ?s1 = Some Pending"
    using steps_listening [OF assms(3-5,7)] by simp_all
  have "delayInMs ?s1 = Some d"
    using assms(1) by simp
  then have s2_eq: "?s2 = ?s1\<lparr>readyListener := False, timerPending := True\<rparr>"
    using s1(1) assms(2) by (simp add: ready_def Let_def)
  then have s2: "\<not> readyListener ?s2" "timerPending ?s2" "promise ?s2 = Some Pending"
    using s1(3) by simp_all
  have s3: "\<not> readyListener ?s3" "timerPending ?s3" "promise ?s3 = Some Pending"
    using steps_waiting [OF s2 assms(8)] by simp_all
  have store3: "store ?s3 = ?X"
  proof -
    have "store ?s3 = store (steps (before @ Does Ready # between) s)"
      by (simp add: steps_append)
    also have "\<dots> = fold mutate (calls_of (before @ Does Ready # between)) (store s)"
      by (rule store_steps)
    also have "calls_of (before @ Does Ready # between) = calls_of (before @ between)"
      by (simp add: calls_of_append)
    finally show ?thesis .
  qed
  have "callback ?s3 = callback s"
    by (simp only: config_steps config_step)
  then have cb: "callbackReturns (callback ?s3)"
    using assms(6) by simp
  have s4: "\<not> readyListener ?s4" "\<not> timerPending ?s4"
      "promise ?s4 = Some (Fulfilled (generateResponse ?X))"
    using timerFires_resolves [OF s3(2,3) cb] s3(1) store3 by simp_all
  have "promise (steps after ?s4) = promise ?s4"
    using steps_settled [OF s4(1,2)] .
  then have final: "promise (steps (before @ Does Ready # between @ TimerFires # after) s)
      = Some (Fulfilled (generateResponse ?X))"
    using s4(3) by (simp add: steps_append)
  have at_expiry: "store (steps (before @ Does Ready # between @ [TimerFires]) s) = ?X"
    using store3 by (simp add: steps_append)
  have pending: "promise (steps (before @ Does Ready # between) s) = Some Pending"
    using s3(3) by (simp add: steps_append)
  have "store (steps (before @ Does Ready # between @ TimerFires # after) s)
      = store (steps after ?s4)"
    by (simp add: steps_append)
  also have "\<dots> = fold mutate (calls_of after) (store ?s4)"
    by (rule store_steps)
  also have "store ?s4 = ?X"
    using store3 by simp
  finally have store_final:
    "store (steps (before @ Does Ready # between @ TimerFires # after) s)
       = fold mutate (calls_of after) ?X" .
  have vX: "valid_refs ?X"
    using assms(10) by (rule valid_refs_fold_mutate)
  have "contents (heap (fold mutate (calls_of after) ?X)) (generateResponse ?X)
      = contents (heap ?X) (generateResponse ?X)"
  proof (rule contents_cong, rule ballI)
    fix r assume r: "r \<in> refs_of (generateResponse ?X)"
    then have "r < length (heap ?X)"
      using vX by (rule refs_of_generateResponse [rotated])
    moreover have "r \<notin> set (changedBy (calls_of after) ?X)"
      using r assms(11) by blast
    ultimately show "heap (fold mutate (calls_of after) ?X) ! r = heap ?X ! r"
      using fold_mutate_frame by blast
  qed
  then have "contents
      (heap (store (steps (before @ Does Ready # between @ TimerFires # after) s)))
      (generateResponse ?X) = contents (heap ?X) (generateResponse ?X)"
    using store_final by simp
  moreover have "same_documents (generateResponse ?X) (generateResponse ?X)"
    by (simp add: same_documents_def)
  ultimately have "\<exists>res. promise (steps (before @ Does Ready # between @ TimerFires # after) s)
        = Some (Fulfilled res) \<and>
      same_documents res (generateResponse ?X) \<and>
      contents (heap (store (steps (before @ Does Ready # between @ TimerFires # after) s))) res
        = contents (heap ?X) res"
    using final by blast
  then show ?thesis
    using pending at_expiry by blast
qed

text \<open>
  The state in which \<open>collect\<close> leaves a new collector when the handler does nothing and
  returns \<open>undefined\<close>: the ready listener is registered and the promise is pending.
\<close>

lemma collect_pending:
  assumes "publish_handlers name = Some handler" and "handler args = ([], Plain Undefined)"
  shows "collect publish_handlers name args cb (new_session delay)
           = ((new_session delay)\<lparr>callback := cb, promise := Some Pending,
                                    readyListener := True\<rparr>, None)"
  using assms by (simp add: collect_def publishHandlerResult_def cursorsOf_def)

text \<open>
  The theorem for a delay of 100 ms: document \<open>1\<close> is added before \<open>ready\<close> and changed
  before the timer fires; afterwards it is removed and document \<open>2\<close> is added. The
  promise is fulfilled with a response that lists document \<open>1\<close> alone, and the document
  shows the change.
\<close>

theorem delayed_response_witness:
  "delayInMs ((new_session (Some 100))\<lparr>promise := Some Pending, readyListener := True\<rparr>)
     = Some 100 \<and> (100::int) \<noteq> 0 \<and>
   readyListener ((new_session (Some 100))\<lparr>promise := Some Pending, readyListener := True\<rparr>) \<and>
   \<not> timerPending ((new_session (Some 100))\<lparr>promise := Some Pending, readyListener := True\<rparr>) \<and>
   promise ((new_session (Some 100))\<lparr>promise := Some Pending, readyListener := True\<rparr>)
     = Some Pending \<and>
   callbackReturns
     (callback ((new_session (Some 100))\<lparr>promise := Some Pending, readyListener := True\<rparr>)) \<and>
   Does Ready \<notin> set [Does (Call (Added (Str ''c'') (Str ''1'') [(''a'', Num 1)]))] \<and>
   TimerFires \<notin> set [Does (Call (Changed (Str ''c'') (Str ''1'') [(''a'', Num 2)]))] \<and>
   ordinary_call (Added (Str ''c'') (Str ''1'') [(''a'', Num 1)]) \<and>
   ordinary_call (Changed (Str ''c'') (Str ''1'') [(''a'', Num 2)]) \<and>
   ordinary_call (Removed (Str ''c'') (Str ''1'')) \<and>
   ordinary_call (Added (Str ''c'') (Str ''2'') []) \<and>
   valid_refs
     (store ((new_session (Some 100))\<lparr>promise := Some Pending, readyListener := True\<rparr>)) \<and>
   store (steps ([Does (Call (Added (Str ''c'') (Str ''1'') [(''a'', Num 1)]))] @
                 Does Ready # [Does (Call (Changed (Str ''c'') (Str ''1'') [(''a'', Num 2)]))] @
                 [TimerFires])
           ((new_session (Some 100))\<lparr>promise := Some Pending, readyListener := True\<rparr>))
     = \<lparr>documents = [(''c'', [(''1'', 0)])], heap = [[(''_id'', Str ''1''), (''a'', Num 2)]]\<rparr> \<and>
   promise (steps ([Does (Call (Added (Str ''c'') (Str ''1'') [(''a'', Num 1)]))] @
                   Does Ready # [Does (Call (Changed (Str ''c'') (Str ''1'') [(''a'', Num 2)]))] @
                   TimerFires # [Does (Call (Removed (Str ''c'') (Str ''1''))),
                                 Does (Call (Added (Str ''c'') (Str ''2'') []))])
             ((new_session (Some 100))\<lparr>promise := Some Pending, readyListener := True\<rparr>))
     = Some (Fulfilled [(''c'', [0])]) \<and>
   contents
     (heap (store (steps
        ([Does (Call (Added (Str ''c'') (Str ''1'') [(''a'', Num 1)]))] @
         Does Ready # [Does (Call (Changed (Str ''c'') (Str ''1'') [(''a'', Num 2)]))] @
         TimerFires # [Does (Call (Removed (Str ''c'') (Str ''1''))),
                       Does (Call (Added (Str ''c'') (Str ''2'') []))])
        ((new_session (Some 100))\<lparr>promise := Some Pending, readyListener := True\<rparr>))))
     [(''c'', [0])]
     = [(''c'', [[(''_id'', Str ''1''), (''a'', Num 2)]])]"
proof -
  let ?s = "(new_session (Some 100))\<lparr>promise := Some Pending, readyListener := True\<rparr>"
  let ?before = "[Does (Call (Added (Str ''c'') (Str ''1'') [(''a'', Num 1)]))]"
  let ?between = "[Does (Call (Changed (Str ''c'') (Str ''1'') [(''a'', Num 2)]))]"
  let ?after = "[Does (Call (Removed (Str ''c'') (Str ''1''))),
                 Does (Call (Added (Str ''c'') (Str ''2'') []))]"
  let ?st = "\<lparr>documents = [(''c'', [(''1'', 0)])], heap = [[(''_id'', Str ''1''), (''a'', Num 2)]]\<rparr>"
  have h: "delayInMs ?s = Some 100" "(100::int) \<noteq> 0" "readyListener ?s" "\<not> timerPending ?s"
      "promise ?s = Some Pending" "callbackReturns (callback ?s)"
      "Does Ready \<notin> set ?before" "TimerFires \<notin> set ?between"
    by (simp_all add: new_session_def)
  have ord: "ordinary_call (Added (Str ''c'') (Str ''1'') [(''a'', Num 1)])"
      "ordinary_call (Changed (Str ''c'') (Str ''1'') [(''a'', Num 2)])"
      "ordinary_call (Removed (Str ''c'') (Str ''1''))"
      "ordinary_call (Added (Str ''c'') (Str ''2'') [])"
    by (simp_all add: inherited_def objectPrototypeNames_def)
  then have all: "\<forall>c \<in> set (calls_of (?before @ ?between @ ?after)). ordinary_call c"
    by simp
  have v: "valid_refs (store ?s)"
    by (simp add: new_session_def empty_collector_def valid_refs_def)
  have st: "fold mutate (calls_of (?before @ ?between)) (store ?s) = ?st"
    by (simp add: new_session_def mutate_def added_def changed_def ensureCollectionInRes_def
        empty_collector_def collection_of_def extendObj_def omit_def inherited_def
        objectPrototypeNames_def)
  have gen: "generateResponse ?st = [(''c'', [0])]"
    by (simp add: generateResponse_def values_of_def)
  have "changedBy (calls_of ?after) ?st = []"
    by (simp add: mutate_def removed_def ensureCollectionInRes_def collection_of_def isEmpty_def)
  then have disj: "set (changedBy (calls_of ?after)
        (fold mutate (calls_of (?before @ ?between)) (store ?s))) \<inter>
      refs_of (generateResponse (fold mutate (calls_of (?before @ ?between)) (store ?s))) = {}"
    by (simp only: st) simp
  have at_expiry: "store (steps (?before @ Does Ready # ?between @ [TimerFires]) ?s) = ?st"
    using delayed_response [OF h all v disj] by (simp only: st)
  have final: "steps (?before @ Does Ready # ?between @ TimerFires # ?after) ?s
      = (new_session (Some 100))\<lparr>promise := Some (Fulfilled [(''c'', [0])]),
           store := \<lparr>documents = [(''c'', [(''2'', 1)])],
                     heap = [[(''_id'', Str ''1''), (''a'', Num 2)], [(''_id'', Str ''2'')]]\<rparr>\<rparr>"
    by (simp add: new_session_def added_def changed_def removed_def ensureCollectionInRes_def
        empty_collector_def collection_of_def extendObj_def omit_def isEmpty_def inherited_def
        objectPrototypeNames_def ready_def timerFires_def completeCollecting_def resolve_def
        stop_def generateResponse_def values_of_def Let_def)
  have shown: "contents [[(''_id'', Str ''1''), (''a'', Num 2)], [(''_id'', Str ''2'')]]
      [(''c'', [0])] = [(''c'', [[(''_id'', Str ''1''), (''a'', Num 2)]])]"
    by (simp add: contents_def)
  show ?thesis
    using h ord v at_expiry by (simp only: final) (simp add: shown)
qed

text \<open>
  Claim C9 as stated fails for a \<open>changed\<close> call made after the timer has fired:
  document \<open>1\<close> is added with \<open>a: 1\<close> before \<open>ready\<close>, the timer fires and the promise
  is fulfilled with a response that lists the document, showing \<open>a: 1\<close>; then
  \<open>changed('c', '1', {a: 99})\<close> updates the listed document object, and the response
  that was delivered shows \<open>a: 99\<close>.
\<close>

theorem delayed_response_counterexample:
  "promise (steps [Does (Call (Added (Str ''c'') (Str ''1'') [(''a'', Num 1)])), Does Ready,
                   TimerFires]
             ((new_session (Some 100))\<lparr>promise := Some Pending, readyListener := True\<rparr>))
     = Some (Fulfilled [(''c'', [0])]) \<and>
   contents
     (heap (store (steps [Does (Call (Added (Str ''c'') (Str ''1'') [(''a'', Num 1)])),
                          Does Ready, TimerFires]
        ((new_session (Some 100))\<lparr>promise := Some Pending, readyListener := True\<rparr>))))
     [(''c'', [0])]
     = [(''c'', [[(''_id'', Str ''1''), (''a'', Num 1)]])] \<and>
   promise (steps [Does (Call (Added (Str ''c'') (Str ''1'') [(''a'', Num 1)])), Does Ready,
                   TimerFires, Does (Call (Changed (Str ''c'') (Str ''1'') [(''a'', Num 99)]))]
             ((new_session (Some 100))\<lparr>promise := Some Pending, readyListener := True\<rparr>))
     = Some (Fulfilled [(''c'', [0])]) \<and>
   contents
     (heap (store (steps [Does (Call (Added (Str ''c'') (Str ''1'') [(''a'', Num 1)])),
                          Does Ready, TimerFires,
                          Does (Call (Changed (Str ''c'') (Str ''1'') [(''a'', Num 99)]))]
        ((new_session (Some 100))\<lparr>promise := Some Pending, readyListener := True\<rparr>))))
     [(''c'', [0])]
     = [(''c'', [[(''_id'', Str ''1''), (''a'', Num 99)]])]"
  by (simp add: new_session_def added_def changed_def ensureCollectionInRes_def
      empty_collector_def collection_of_def extendObj_def omit_def inherited_def
      objectPrototypeNames_def ready_def timerFires_def completeCollecting_def resolve_def
      stop_def generateResponse_def values_of_def contents_def Let_def)

end
